theory Spec2Isabelle
  imports Main "HOL-Library.Word" "HOL-Library.Signed_Division"
begin

unbundle bit_operations_syntax

section \<open>Machine types and run-time outcomes\<close>

text \<open>
  The codec of \<^verbatim>\<open>helper.go\<close> works on Go's \<^verbatim>\<open>byte\<close>, \<^verbatim>\<open>int64\<close>, \<^verbatim>\<open>uint64\<close>,
  \<^verbatim>\<open>int\<close> and \<^verbatim>\<open>uint\<close>. The first three have a fixed width. Go's \<^verbatim>\<open>int\<close> and
  \<^verbatim>\<open>uint\<close> are as wide as the target's machine word (32 bits on 386 and arm, 64 bits
  on amd64 and arm64), so every function that computes with them is polymorphic in the
  width \<open>'w\<close>: \<open>32 word\<close> and \<open>64 word\<close> are the two instances Go has.
  Signed comparison is \<open>word_sless\<close> / \<open>word_sle\<close>, the value of a signed word is
  \<open>sint\<close>, conversions between signed types are \<open>scast\<close> (sign extension when
  widening, truncation when narrowing) and conversions from unsigned types are
  \<open>ucast\<close>.
\<close>

type_synonym byte = "8 word"
type_synonym int64 = "64 word"
type_synonym uint64 = "64 word"

text \<open>
  The errors the functions build with \<^verbatim>\<open>errors.New\<close> and \<^verbatim>\<open>fmt.Errorf\<close>, one
  constructor for each message, carrying what the message formats.
\<close>

datatype error =
    IntegerTooLarge                \<comment> \<open>\<^verbatim>\<open>integer too large\<close>\<close>
  | InvalidLength                  \<comment> \<open>\<^verbatim>\<open>length must be greater than zero\<close>\<close>
  | InvalidOid                     \<comment> \<open>\<^verbatim>\<open>invalid object identifier\<close>\<close>
  | Base128TooLarge                \<comment> \<open>\<^verbatim>\<open>Structural Error: base 128 integer too large\<close>\<close>
  | Base128Truncated               \<comment> \<open>\<^verbatim>\<open>Syntax Error: truncated base 128 integer\<close>\<close>
  | EmptyBitString                 \<comment> \<open>\<^verbatim>\<open>zero length BIT STRING\<close>\<close>
  | InvalidPadding                 \<comment> \<open>\<^verbatim>\<open>invalid padding bits in BIT STRING\<close>\<close>
  | EmptyOid                       \<comment> \<open>\<^verbatim>\<open>zero length OBJECT IDENTIFIER\<close>\<close>
  | MalformedOid                   \<comment> \<open>\<^verbatim>\<open>Unable to parse OID: ...\<close>\<close>
  | UnableToMarshalOid error       \<comment> \<open>\<^verbatim>\<open>Unable to marshal OID: ...\<close>\<close>
  | UnknownFieldType byte          \<comment> \<open>\<^verbatim>\<open>Unknown field type: %x\<close>\<close>
  | DecodeBytesErr "byte list" error  \<comment> \<open>\<^verbatim>\<open>bytes: % x err: %v\<close>\<close>
  | ErrorParsingOidValue error     \<comment> \<open>\<^verbatim>\<open>Error parsing OID Value: %s\<close>\<close>
  | TypeAssertFailed               \<comment> \<open>\<^verbatim>\<open>unable to type assert rawOid |%v| to []int\<close>\<close>
  | TruncatedIpAddress "byte list" \<comment> \<open>\<^verbatim>\<open>not enough data for ipaddress: % x\<close>\<close>
  | InvalidIpAddressLength byte    \<comment> \<open>\<^verbatim>\<open>got ipaddress len %d, expected 4\<close>\<close>
  | UnsupportedType byte           \<comment> \<open>\<^verbatim>\<open>Unable to decode %x - not implemented\<close>\<close>

text \<open>
  A Go function that indexes or slices a buffer out of range does not return: the run
  time panics. \<open>Panic\<close> is that outcome, \<open>Return\<close> an ordinary return. A function
  that returns \<^verbatim>\<open>(value, err)\<close> and whose value is the zero value whenever \<^verbatim>\<open>err\<close> is
  set is modelled with the sum \<open>error + 'a\<close>, \<open>Inl\<close> being the error.
\<close>

datatype 'a outcome = Panic | Return 'a

section \<open>Integer codec\<close>

text \<open>
  \<^verbatim>\<open>parseInt64\<close>: at most 8 bytes, accumulated big-endian into an \<^verbatim>\<open>int64\<close>, then
  shifted up and (arithmetically) down by \<^verbatim>\<open>64 - uint8(len(bytes))*8\<close> to extend the
  sign. Go's shifts by the width or more give 0 (left) and the sign fill (arithmetic
  right), as \<open>push_bit\<close> and \<open>signed_drop_bit\<close> do.
\<close>

fun parseInt64_loop :: "byte list \<Rightarrow> int64 \<Rightarrow> int64" where
  "parseInt64_loop [] ret = ret"
| "parseInt64_loop (b # bs) ret = parseInt64_loop bs (push_bit 8 ret OR ucast b)"

definition parseInt64 :: "byte list \<Rightarrow> error + int64" where
  "parseInt64 bytes =
     (if length bytes > 8 then Inl IntegerTooLarge
      else let ret = parseInt64_loop bytes 0;
               sh = unat ((64 :: 8 word) - of_nat (length bytes) * 8)
           in Inr (signed_drop_bit sh (push_bit sh ret)))"

text \<open>
  \<^verbatim>\<open>parseInt\<close>: the 64-bit value, refused when \<^verbatim>\<open>ret64 != int64(int(ret64))\<close>, that is
  when it does not survive the conversion to the target's \<^verbatim>\<open>int\<close> and back.
\<close>

definition parseInt :: "byte list \<Rightarrow> error + 'w::len word" where
  "parseInt bytes =
     (case parseInt64 bytes of
        Inl err \<Rightarrow> Inl err
      | Inr ret64 \<Rightarrow>
          if ret64 \<noteq> scast (scast ret64 :: 'w word) then Inl IntegerTooLarge
          else Inr (scast ret64))"

text \<open>\<^verbatim>\<open>parseUint64\<close> and \<^verbatim>\<open>parseUint\<close>: the same without the sign.\<close>

fun parseUint64_loop :: "byte list \<Rightarrow> uint64 \<Rightarrow> uint64" where
  "parseUint64_loop [] ret = ret"
| "parseUint64_loop (b # bs) ret = parseUint64_loop bs (push_bit 8 ret OR ucast b)"

definition parseUint64 :: "byte list \<Rightarrow> error + uint64" where
  "parseUint64 bytes =
     (if length bytes > 8 then Inl IntegerTooLarge
      else Inr (parseUint64_loop bytes 0))"

definition parseUint :: "byte list \<Rightarrow> error + 'w::len word" where
  "parseUint bytes =
     (case parseUint64 bytes of
        Inl err \<Rightarrow> Inl err
      | Inr ret64 \<Rightarrow>
          if ret64 \<noteq> ucast (ucast ret64 :: 'w word) then Inl IntegerTooLarge
          else Inr (ucast ret64))"

text \<open>
  The value the bytes denote, as the specification words it: big-endian, two's
  complement over \<open>8 * length bs\<close> bits.
\<close>

fun be_nat :: "byte list \<Rightarrow> nat \<Rightarrow> nat" where
  "be_nat [] acc = acc"
| "be_nat (b # bs) acc = be_nat bs (acc * 256 + unat b)"

definition twos_complement :: "byte list \<Rightarrow> int" where
  "twos_complement bs =
     (let n = int (be_nat bs 0); k = 8 * length bs
      in if 0 < k \<and> 2 ^ (k - 1) \<le> n then n - 2 ^ k else n)"

section \<open>Unsigned-to-big-integer bridge\<close>

text \<open>
  \<^verbatim>\<open>big.Int\<close> is an unbounded integer: \<open>int\<close>. \<^verbatim>\<open>init\<close> sets bit 63 of the
  zero-valued package variable \<^verbatim>\<open>uint64ToBigIntDelta\<close>; \<^verbatim>\<open>big.NewInt\<close> takes an
  \<^verbatim>\<open>int64\<close>, read with \<open>sint\<close>.
\<close>

definition uint64ToBigIntDelta :: int where
  "uint64ToBigIntDelta = set_bit 63 0"

definition MaxInt64 :: uint64 where
  "MaxInt64 = 0x7FFFFFFFFFFFFFFF"

definition uint64ToBigInt :: "uint64 \<Rightarrow> int" where
  "uint64ToBigInt n =
     (if n \<le> MaxInt64 then sint n
      else let y = sint (n - MaxInt64 - 1) in y + uint64ToBigIntDelta)"

section \<open>Bit strings\<close>

text \<open>The field \<^verbatim>\<open>BitLength\<close> is an \<^verbatim>\<open>int\<close>: the parameter \<open>'i\<close> is \<open>'w word\<close>.\<close>

record 'i BitStringValue =
  Bytes :: "byte list"
  BitLength :: 'i

text \<open>
  \<^verbatim>\<open>parseBitString\<close>. In \<^verbatim>\<open>(1<<bytes[0])-1\<close> the constant \<^verbatim>\<open>1\<close> takes the type of
  the other operand of \<^verbatim>\<open>&\<close>, a \<^verbatim>\<open>byte\<close>; the three tests are joined by Go's
  short-circuit \<^verbatim>\<open>||\<close> in this order. \<^verbatim>\<open>len(bytes)\<close> is an \<^verbatim>\<open>int\<close>.
\<close>

definition parseBitString :: "byte list \<Rightarrow> error + ('w::len word) BitStringValue" where
  "parseBitString bytes =
     (if length bytes = 0 then Inl EmptyBitString
      else let paddingBits = (ucast (bytes ! 0) :: 'w word)
           in if 7 <s paddingBits
                 \<or> (length bytes = 1 \<and> 0 <s paddingBits)
                 \<or> (bytes ! (length bytes - 1)) AND (push_bit (unat (bytes ! 0)) 1 - 1) \<noteq> 0
              then Inl InvalidPadding
              else Inr \<lparr> Bytes = drop 1 bytes,
                         BitLength = (of_nat (length bytes) - 1) * 8 - paddingBits \<rparr>)"

section \<open>Length codec\<close>

text \<open>
  \<^verbatim>\<open>binary.Write(buf, binary.LittleEndian, uint64(length))\<close> appends the eight bytes
  of the value, least significant first. \<^verbatim>\<open>buf.ReadBytes(0)\<close> returns the bytes up to
  and including the first zero byte, or, when there is none, everything with the
  error \<^verbatim>\<open>io.EOF\<close> (the flag of the pair is \<open>False\<close> then).
\<close>

definition binary_Write_LittleEndian_uint64 :: "uint64 \<Rightarrow> byte list" where
  "binary_Write_LittleEndian_uint64 x = map (\<lambda>i. ucast (drop_bit (8 * i) x)) [0 ..< 8]"

fun ReadBytes :: "byte \<Rightarrow> byte list \<Rightarrow> byte list \<times> bool" where
  "ReadBytes delim [] = ([], False)"
| "ReadBytes delim (b # bs) =
     (if b = delim then ([b], True)
      else let (r, found) = ReadBytes delim bs in (b # r, found))"

text \<open>
  \<^verbatim>\<open>marshalLength\<close>. When \<^verbatim>\<open>ReadBytes\<close> finds no zero byte the function returns
  \<^verbatim>\<open>nil, err\<close> with the \<^verbatim>\<open>err\<close> of \<^verbatim>\<open>binary.Write\<close>, which is \<^verbatim>\<open>nil\<close>: an empty
  slice and no error.
\<close>

definition marshalLength :: "'w::len word \<Rightarrow> error + byte list" where
  "marshalLength len =
     (if len <s 0 then Inl InvalidLength
      else if len <s 127 then Inr [ucast len]
      else let buf = binary_Write_LittleEndian_uint64 (scast len);
               (buf_bytes, found) = ReadBytes 0 buf
           in if \<not> found then Inr []
              else let buf_bytes = take (length buf_bytes - 1) buf_bytes;
                       header = [(128 :: byte) OR of_nat (length buf_bytes)]
                   in Inr (header @ buf_bytes))"

text \<open>
  \<^verbatim>\<open>parseLength\<close> returns \<^verbatim>\<open>(length, cursor)\<close>. It indexes \<^verbatim>\<open>bytes[2+i]\<close> for each
  announced length octet without looking at \<^verbatim>\<open>len(bytes)\<close>: that read panics when the
  buffer is too short. \<^verbatim>\<open>num_octets\<close> and \<^verbatim>\<open>i\<close> stay within 0..127 and are natural
  numbers here; \<^verbatim>\<open>length\<close> is an \<^verbatim>\<open>int\<close> that the shifts can overflow.
\<close>

function parseLength_loop :: "byte list \<Rightarrow> nat \<Rightarrow> nat \<Rightarrow> 'w::len word \<Rightarrow> 'w word outcome" where
  "parseLength_loop bytes num_octets i len =
     (if i < num_octets then
        (if 2 + i < length bytes
         then parseLength_loop bytes num_octets (i + 1) (push_bit 8 len + ucast (bytes ! (2 + i)))
         else Panic)
      else Return len)"
  by pat_completeness auto
termination
  by (relation "measure (\<lambda>(bytes, num_octets, i, len). num_octets - i)") auto

declare parseLength_loop.simps [simp del]

definition parseLength :: "byte list \<Rightarrow> ('w::len word \<times> 'w word) outcome" where
  "parseLength bytes =
     (if length bytes \<le> 2 then Return (2, 1)
      else if unat (bytes ! 1) \<le> 127 then Return (ucast (bytes ! 1) + 2, 2)
      else let num_octets = unat (bytes ! 1) AND 127
           in case parseLength_loop bytes num_octets 0 0 of
                Panic \<Rightarrow> Panic
              | Return len \<Rightarrow> Return (len + of_nat (2 + num_octets), 0 + of_nat (2 + num_octets)))"

text \<open>
  The length octets a long-form header announces: as many bytes after the second one as
  its low 7 bits say (fewer when the buffer ends before).
\<close>

definition long_form_octets :: "byte list \<Rightarrow> byte list" where
  "long_form_octets bytes = take (unat (bytes ! 1) AND 127) (drop 2 bytes)"

section \<open>Indexing and slicing\<close>

text \<open>
  \<^verbatim>\<open>data[i]\<close> panics unless \<^verbatim>\<open>0 <= i < len(data)\<close>, and \<^verbatim>\<open>data[lo:hi]\<close> panics unless
  \<^verbatim>\<open>0 <= lo <= hi <= cap(data)\<close>: a slice may be extended over the part of its backing
  array that lies behind its length. A \<^verbatim>\<open>[]byte\<close> is therefore two lists: \<open>xs\<close>, the
  \<^verbatim>\<open>len(data)\<close> elements that indexing and \<^verbatim>\<open>range\<close> see, and \<open>spare\<close>, the
  \<^verbatim>\<open>cap(data) - len(data)\<close> elements of the backing array behind them, which only a slice
  expression reaches. The functions that receive the result of a slice expression
  (\<^verbatim>\<open>parseInt\<close>, \<^verbatim>\<open>parseUint\<close>, \<^verbatim>\<open>parseInt64\<close>, \<^verbatim>\<open>parseObjectIdentifier\<close>, \<^verbatim>\<open>string\<close>,
  \<^verbatim>\<open>Sprintf\<close>) index it and take its length but never extend it, so \<open>slice\<close> returns the
  elements of the result only.
\<close>

definition index :: "'a list \<Rightarrow> 'w::len word \<Rightarrow> 'a outcome" where
  "index xs i =
     (if 0 \<le> sint i \<and> nat (sint i) < length xs then Return (xs ! nat (sint i)) else Panic)"

definition slice :: "'a list \<Rightarrow> 'a list \<Rightarrow> 'w::len word \<Rightarrow> 'w word \<Rightarrow> 'a list outcome" where
  "slice xs spare lo hi =
     (if 0 \<le> sint lo \<and> sint lo \<le> sint hi \<and> sint hi \<le> int (length xs + length spare)
      then Return (take (nat (sint hi) - nat (sint lo)) (drop (nat (sint lo)) (xs @ spare)))
      else Panic)"

section \<open>Base-128 varint codec\<close>

text \<open>
  \<^verbatim>\<open>marshalBase128Int\<close> appends to a \<^verbatim>\<open>bytes.Buffer\<close>, whose \<^verbatim>\<open>WriteByte\<close> never
  returns an error: the buffer is a list that the function returns extended. The first
  loop counts the 7-bit groups of \<^verbatim>\<open>n\<close> (\<^verbatim>\<open>for i := n; i > 0; i >>= 7\<close>, an arithmetic
  shift of an \<^verbatim>\<open>int64\<close>); the second emits group \<^verbatim>\<open>i\<close> for \<^verbatim>\<open>i = l-1, ..., 0\<close>.
\<close>

function base128_groups :: "int64 \<Rightarrow> nat \<Rightarrow> nat" where
  "base128_groups i l = (if 0 <s i then base128_groups (signed_drop_bit 7 i) (l + 1) else l)"
  by pat_completeness auto
termination
proof (relation "measure (\<lambda>(i, l). nat (sint i))")
  show "wf (measure (\<lambda>(i :: int64, l :: nat). nat (sint i)))" by simp
next
  fix i :: int64 and l :: nat
  assume "0 <s i"
  then have pos: "0 < sint i" by (simp add: word_sless_alt)
  have "sint (signed_drop_bit 7 i) = sint i div 2 ^ 7"
    by (simp only: sint_signed_drop_bit_eq drop_bit_eq_div)
  with pos have "sint (signed_drop_bit 7 i) < sint i" by simp
  with pos show "((signed_drop_bit 7 i, l + 1), (i, l)) \<in> measure (\<lambda>(i, l). nat (sint i))"
    by simp
qed

declare base128_groups.simps [simp del]

primrec base128_emit :: "int64 \<Rightarrow> nat \<Rightarrow> byte list \<Rightarrow> byte list" where
  "base128_emit n 0 out = out"
| "base128_emit n (Suc i) out =
     (let o1 = (ucast (signed_drop_bit (i * 7) n) :: byte) AND 0x7f;
          o2 = (if i \<noteq> 0 then o1 OR 0x80 else o1)
      in base128_emit n i (out @ [o2]))"

definition marshalBase128Int :: "byte list \<Rightarrow> int64 \<Rightarrow> byte list" where
  "marshalBase128Int out n =
     (if n = 0 then out @ [0]
      else base128_emit n (base128_groups n 0) out)"

text \<open>
  \<^verbatim>\<open>parseBase128Int\<close> returns \<^verbatim>\<open>(ret, offset, err)\<close>; its callers drop the first two
  when \<^verbatim>\<open>err\<close> is set. \<^verbatim>\<open>offset\<close> only grows from a valid index up to \<^verbatim>\<open>len(bytes)\<close>
  and is a natural number; \<^verbatim>\<open>ret\<close> is an \<^verbatim>\<open>int\<close>.
\<close>

function parseBase128Int_loop ::
  "byte list \<Rightarrow> nat \<Rightarrow> 'w::len word \<Rightarrow> nat \<Rightarrow> error + ('w word \<times> nat)" where
  "parseBase128Int_loop bytes shifted ret offset =
     (if offset < length bytes then
        (if shifted > 4 then Inl Base128TooLarge
         else let ret1 = push_bit 7 ret;
                  b = bytes ! offset;
                  ret2 = ret1 OR ucast (b AND 0x7f);
                  offset1 = offset + 1
              in if b AND 0x80 = 0 then Inr (ret2, offset1)
                 else parseBase128Int_loop bytes (shifted + 1) ret2 offset1)
      else Inl Base128Truncated)"
  by pat_completeness auto
termination
  by (relation "measure (\<lambda>(bytes, shifted, ret, offset). length bytes - offset)") auto

declare parseBase128Int_loop.simps [simp del]

definition parseBase128Int :: "byte list \<Rightarrow> nat \<Rightarrow> error + ('w::len word \<times> nat)" where
  "parseBase128Int bytes initOffset = parseBase128Int_loop bytes 0 0 initOffset"

text \<open>
  The varint of the specification's words: zero is one zero byte; otherwise the 7-bit
  groups of \<open>n\<close>, the most significant first, each but the last with the top bit set.
\<close>

function spec_groups :: "nat \<Rightarrow> nat list" where
  "spec_groups n = (if n < 128 then [n] else spec_groups (n div 128) @ [n mod 128])"
  by pat_completeness auto
termination
  by (relation "measure id") auto

declare spec_groups.simps [simp del]

definition spec_base128 :: "nat \<Rightarrow> byte list" where
  "spec_base128 n =
     (let gs = spec_groups n
      in map (\<lambda>g. of_nat (g + 128)) (butlast gs) @ [of_nat (last gs)])"

section \<open>Strings\<close>

text \<open>
  A Go \<^verbatim>\<open>string\<close> is a sequence of bytes: \<open>string\<close>, the \<open>char\<close> of a byte being
  the one with its code. What the code takes from Go's standard library is modelled
  from that library's documentation: \<^verbatim>\<open>fmt.Sprintf\<close> with the verbs \<^verbatim>\<open>%d\<close> and
  \<^verbatim>\<open>% x\<close>, \<^verbatim>\<open>strings.Trim\<close>, \<^verbatim>\<open>strings.Split\<close> and \<^verbatim>\<open>strconv.Atoi\<close>.
\<close>

definition string_of_bytes :: "byte list \<Rightarrow> string" where
  "string_of_bytes bs = map (\<lambda>b. char_of (unat b)) bs"

definition digit_char :: "nat \<Rightarrow> char" where
  "digit_char d = char_of (48 + d)"

function dec_digits :: "nat \<Rightarrow> string" where
  "dec_digits n = (if n < 10 then [digit_char n] else dec_digits (n div 10) @ [digit_char (n mod 10)])"
  by pat_completeness auto
termination
  by (relation "measure id") auto

declare dec_digits.simps [simp del]

text \<open>\<^verbatim>\<open>%d\<close> of a signed integer and of a byte.\<close>

definition Sprintf_d :: "int \<Rightarrow> string" where
  "Sprintf_d i = (if i < 0 then CHR ''-'' # dec_digits (nat (- i)) else dec_digits (nat i))"

text \<open>\<^verbatim>\<open>% x\<close> of a byte slice: two lower-case hexadecimal digits a byte, a space between
  bytes.\<close>

definition hex_char :: "nat \<Rightarrow> char" where
  "hex_char d = (if d < 10 then char_of (48 + d) else char_of (87 + d))"

fun Sprintf_x_spaced :: "byte list \<Rightarrow> string" where
  "Sprintf_x_spaced [] = []"
| "Sprintf_x_spaced [b] = [hex_char (unat b div 16), hex_char (unat b mod 16)]"
| "Sprintf_x_spaced (b # bs) =
     [hex_char (unat b div 16), hex_char (unat b mod 16), CHR '' ''] @ Sprintf_x_spaced bs"

text \<open>\<^verbatim>\<open>strings.Trim(s, ".")\<close> removes every leading and trailing dot.\<close>

definition strings_Trim :: "string \<Rightarrow> char \<Rightarrow> string" where
  "strings_Trim s c = rev (dropWhile (\<lambda>x. x = c) (rev (dropWhile (\<lambda>x. x = c) s)))"

text \<open>\<^verbatim>\<open>strings.Split(s, ".")\<close>: the pieces between the separators, at least one piece.\<close>

fun strings_Split :: "string \<Rightarrow> char \<Rightarrow> string list" where
  "strings_Split [] c = [[]]"
| "strings_Split (x # xs) c =
     (if x = c then [] # strings_Split xs c
      else (case strings_Split xs c of
              [] \<Rightarrow> [[x]]
            | p # ps \<Rightarrow> (x # p) # ps))"

text \<open>
  \<^verbatim>\<open>strconv.Atoi\<close>: an optional sign, then one or more decimal digits and nothing else;
  a value outside the range of \<^verbatim>\<open>int\<close> is an error.
\<close>

definition is_digit :: "char \<Rightarrow> bool" where
  "is_digit c = (48 \<le> (of_char c :: nat) \<and> (of_char c :: nat) \<le> 57)"

fun dec_value :: "string \<Rightarrow> nat \<Rightarrow> nat" where
  "dec_value [] acc = acc"
| "dec_value (c # cs) acc = dec_value cs (acc * 10 + (of_char c - 48))"

definition strconv_Atoi :: "string \<Rightarrow> ('w::len word) option" where
  "strconv_Atoi s =
     (let (neg, ds) = (case s of
                         [] \<Rightarrow> (False, s)
                       | c # r \<Rightarrow> if c = CHR ''-'' then (True, r)
                                  else if c = CHR ''+'' then (False, r)
                                  else (False, s))
      in if ds = [] \<or> \<not> list_all is_digit ds then None
         else let n = dec_value ds 0
              in if neg then (if int n \<le> 2 ^ (LENGTH('w) - 1) then Some (- of_nat n) else None)
                 else (if int n < 2 ^ (LENGTH('w) - 1) then Some (of_nat n) else None))"

section \<open>Object identifiers\<close>

text \<open>
  \<^verbatim>\<open>marshalObjectIdentifier\<close>: the guard, the first byte \<^verbatim>\<open>byte(oid[0]*40 + oid[1])\<close>
  (an \<^verbatim>\<open>int\<close> product and sum, cut to 8 bits), then the loop from index 2.
\<close>

function marshalObjectIdentifier_loop :: "('w::len word) list \<Rightarrow> nat \<Rightarrow> byte list \<Rightarrow> byte list" where
  "marshalObjectIdentifier_loop oid i out =
     (if i < length oid
      then marshalObjectIdentifier_loop oid (i + 1) (marshalBase128Int out (scast (oid ! i)))
      else out)"
  by pat_completeness auto
termination
  by (relation "measure (\<lambda>(oid, i, out). length oid - i)") auto

declare marshalObjectIdentifier_loop.simps [simp del]

definition marshalObjectIdentifier :: "('w::len word) list \<Rightarrow> error + byte list" where
  "marshalObjectIdentifier oid =
     (if length oid < 2 \<or> 6 <s oid ! 0 \<or> 40 \<le>s oid ! 1 then Inl InvalidOid
      else let out = [] @ [ucast (oid ! 0 * 40 + oid ! 1)]
           in Inr (marshalObjectIdentifier_loop oid 2 out))"

text \<open>
  \<^verbatim>\<open>marshalOID\<close>: trim, split, \<^verbatim>\<open>Atoi\<close> on each part in turn (the first failure
  returns), then \<^verbatim>\<open>marshalObjectIdentifier\<close>. The first argument of the model only
  names the width of \<^verbatim>\<open>int\<close>, which the result type does not show.
\<close>

fun marshalOID_parts :: "string list \<Rightarrow> (('w::len word) list) option" where
  "marshalOID_parts [] = Some []"
| "marshalOID_parts (p # ps) =
     (case strconv_Atoi p of
        None \<Rightarrow> None
      | Some v \<Rightarrow> (case marshalOID_parts ps of None \<Rightarrow> None | Some vs \<Rightarrow> Some (v # vs)))"

definition marshalOID :: "'w::len itself \<Rightarrow> string \<Rightarrow> error + byte list" where
  "marshalOID w oid =
     (let oid1 = strings_Trim oid CHR ''.'';
          oidParts = strings_Split oid1 CHR ''.''
      in case (marshalOID_parts oidParts :: ('w word) list option) of
           None \<Rightarrow> Inl MalformedOid
         | Some oidBytes \<Rightarrow>
             (case marshalObjectIdentifier oidBytes of
                Inl err \<Rightarrow> Inl (UnableToMarshalOid err)
              | Inr mOid \<Rightarrow> Inr mOid))"

text \<open>
  \<^verbatim>\<open>oidToString\<close>: \<^verbatim>\<open>ret[1:]\<close> panics on the empty string, which is what the loop
  leaves for an empty \<^verbatim>\<open>oid\<close>.
\<close>

fun oidToString_loop :: "('w::len word) list \<Rightarrow> string \<Rightarrow> string" where
  "oidToString_loop [] ret = ret"
| "oidToString_loop (i # oid) ret = oidToString_loop oid (ret @ CHR ''.'' # Sprintf_d (sint i))"

definition oidToString :: "('w::len word) list \<Rightarrow> string outcome" where
  "oidToString oid =
     (let ret = oidToString_loop oid []
      in if 1 \<le> length ret then Return (drop 1 ret) else Panic)"

text \<open>
  \<^verbatim>\<open>parseObjectIdentifier\<close> fills the slice \<^verbatim>\<open>s\<close> of \<^verbatim>\<open>len(bytes)+1\<close> integers by
  index and cuts it to \<^verbatim>\<open>s[0:i]\<close>; the write \<^verbatim>\<open>s[i] = v\<close> and the cut are the
  bounds-checked accesses of Go. The loop ends because every successful
  \<^verbatim>\<open>parseBase128Int\<close> moves the offset forward. It returns \<^verbatim>\<open>(s, err)\<close>: \<^verbatim>\<open>nil\<close> with the error for
  an empty input, the slice as filled so far with the error of \<^verbatim>\<open>parseBase128Int\<close>.
  Go's \<^verbatim>\<open>/\<close> and \<^verbatim>\<open>%\<close> on \<^verbatim>\<open>int\<close> truncate towards zero: \<open>sdiv\<close> and \<open>smod\<close>
  on the signed values (the divisor here is the constant 40).
\<close>

definition int_quo :: "'w::len word \<Rightarrow> 'w word \<Rightarrow> 'w word" where
  "int_quo a b = word_of_int (sint a sdiv sint b)"

definition int_rem :: "'w::len word \<Rightarrow> 'w word \<Rightarrow> 'w word" where
  "int_rem a b = word_of_int (sint a smod sint b)"

function parseObjectIdentifier_loop ::
  "byte list \<Rightarrow> nat \<Rightarrow> nat \<Rightarrow> ('w::len word) list \<Rightarrow> (('w word) list \<times> error option) outcome" where
  "parseObjectIdentifier_loop bytes offset i s =
     (if offset < length bytes then
        (case parseBase128Int bytes offset of
           Inl err \<Rightarrow> Return (s, Some err)
         | Inr (v, offset1) \<Rightarrow>
             if i < length s
             then parseObjectIdentifier_loop bytes offset1 (i + 1) (s[i := v])
             else Panic)
      else if i \<le> length s then Return (take i s, None) else Panic)"
  by pat_completeness auto
termination
proof (relation "measure (\<lambda>(bytes, offset, i, s). length bytes - offset)")
  show "wf (measure (\<lambda>(bytes :: byte list, offset :: nat, i :: nat, s :: ('w::len word) list).
              length bytes - offset))"
    by simp
next
  fix bytes :: "byte list" and offset i :: nat and s :: "('w::len word) list"
    and x2 :: "'w word \<times> nat" and v :: "'w word" and offset1 :: nat
  assume lt: "offset < length bytes"
    and p: "parseBase128Int bytes offset = Inr x2" and x2: "(v, offset1) = x2"
  have adv: "parseBase128Int_loop bytes sh r off = Inr (v', off') \<Longrightarrow> off < off'"
    for sh :: nat and r v' :: "'w word" and off off' :: nat
  proof (induction bytes sh r off rule: parseBase128Int_loop.induct)
    case (1 bytes shifted ret offset)
    from "1.prems" show ?case
      by (subst (asm) parseBase128Int_loop.simps)
         (auto simp: Let_def split: if_splits dest!: "1.IH" [OF _ _ refl refl refl refl])
  qed
  from p x2 have "offset < offset1" unfolding parseBase128Int_def by (auto dest: adv)
  with lt show "((bytes, offset1, i + 1, s[i := v]), (bytes, offset, i, s))
        \<in> measure (\<lambda>(bytes, offset, i, s). length bytes - offset)"
    by simp
qed

declare parseObjectIdentifier_loop.simps [simp del]

definition parseObjectIdentifier :: "byte list \<Rightarrow> (('w::len word) list \<times> error option) outcome" where
  "parseObjectIdentifier bytes =
     (if length bytes = 0 then Return ([], Some EmptyOid)
      else let s = replicate (length bytes + 1) 0;
               s = s[0 := int_quo (ucast (bytes ! 0)) 40];
               s = s[1 := int_rem (ucast (bytes ! 0)) 40]
           in parseObjectIdentifier_loop bytes 1 2 s)"

text \<open>
  The canonical dotted-decimal form of the specification: the pieces between the dots
  are decimal numbers, each a non-empty run of digits with no sign and no leading
  zero (so that no piece is empty and the string neither begins nor ends with a dot);
  \<open>oid_numbers\<close> are the numbers the pieces denote.
\<close>

definition canonical_number :: "string \<Rightarrow> bool" where
  "canonical_number ds = (ds \<noteq> [] \<and> list_all is_digit ds \<and> (ds = ''0'' \<or> hd ds \<noteq> CHR ''0''))"

definition canonical_oid :: "string \<Rightarrow> bool" where
  "canonical_oid s = list_all canonical_number (strings_Split s CHR ''.'')"

definition oid_numbers :: "string \<Rightarrow> nat list" where
  "oid_numbers s = map (\<lambda>p. dec_value p 0) (strings_Split s CHR ''.'')"

section \<open>Type tags and decoded values\<close>

text \<open>
  \<^verbatim>\<open>Asn1BER\<close> is a byte. Its constants are declared in another file of the package;
  the values are those the comments of \<^verbatim>\<open>decodeValue\<close> give beside each case.
\<close>

type_synonym Asn1BER = byte

definition Integer :: Asn1BER where "Integer = 0x02"
definition OctetString :: Asn1BER where "OctetString = 0x04"
definition Null :: Asn1BER where "Null = 0x05"
definition ObjectIdentifier :: Asn1BER where "ObjectIdentifier = 0x06"
definition IpAddress :: Asn1BER where "IpAddress = 0x40"
definition Counter32 :: Asn1BER where "Counter32 = 0x41"
definition Gauge32 :: Asn1BER where "Gauge32 = 0x42"
definition TimeTicks :: Asn1BER where "TimeTicks = 0x43"
definition Counter64 :: Asn1BER where "Counter64 = 0x46"
definition NoSuchObject :: Asn1BER where "NoSuchObject = 0x80"
definition NoSuchInstance :: Asn1BER where "NoSuchInstance = 0x81"

text \<open>
  What an \<^verbatim>\<open>interface{}\<close> holds in this file: nothing, an \<^verbatim>\<open>int\<close>, a \<^verbatim>\<open>uint\<close>, an
  \<^verbatim>\<open>int64\<close>, a \<^verbatim>\<open>string\<close> or an \<^verbatim>\<open>[]int\<close>. The parameter \<open>'i\<close> is \<open>'w word\<close>.
\<close>

datatype 'i any = VNil | VInt 'i | VUint 'i | VInt64 int64 | VString string | VInts "'i list"

text \<open>
  \<^verbatim>\<open>Variable\<close>, with the two fields \<^verbatim>\<open>decodeValue\<close> sets; \<^verbatim>\<open>new(Variable)\<close> is the
  zero value.
\<close>

record 'i Variable =
  Type :: Asn1BER
  Value :: "'i any"

definition new_Variable :: "'i Variable" where
  "new_Variable = \<lparr> Type = 0, Value = VNil \<rparr>"

section \<open>Raw field parser\<close>

text \<open>
  \<^verbatim>\<open>parseRawField\<close> returns \<^verbatim>\<open>(interface{}, int, error)\<close>. Every \<^verbatim>\<open>data[k]\<close> and
  every slice is a bounds-checked access, the first against \<^verbatim>\<open>len(data)\<close>, the second
  against \<^verbatim>\<open>cap(data)\<close>: the argument \<^verbatim>\<open>data\<close> is the pair of \<open>data\<close> and \<open>spare\<close>.
  \<^verbatim>\<open>dumpBytes1\<close> only writes to the log.
\<close>

definition parseRawField ::
  "byte list \<Rightarrow> byte list \<Rightarrow> (('w::len word) any \<times> 'w word \<times> error option) outcome" where
  "parseRawField data spare =
     (case index data (0 :: 'w word) of Panic \<Rightarrow> Panic
      | Return tag \<Rightarrow>
        if tag = Integer then
          (case index data (1 :: 'w word) of Panic \<Rightarrow> Panic
           | Return b1 \<Rightarrow>
             let len = (ucast b1 :: 'w word)
             in if len = 1 then
                  (case index data (2 :: 'w word) of Panic \<Rightarrow> Panic
                   | Return b2 \<Rightarrow> Return (VInt (ucast b2), 3, None))
                else
                  (case slice data spare 2 (2 + len) of Panic \<Rightarrow> Panic
                   | Return body \<Rightarrow>
                     (case parseUint body of
                        Inl err \<Rightarrow> Return (VUint 0, 2 + len, Some err)
                      | Inr resp \<Rightarrow> Return (VUint resp, 2 + len, None))))
        else if tag = OctetString then
          (case parseLength data of Panic \<Rightarrow> Panic
           | Return (len, cursor) \<Rightarrow>
             (case slice data spare cursor len of Panic \<Rightarrow> Panic
              | Return body \<Rightarrow> Return (VString (string_of_bytes body), len, None)))
        else if tag = ObjectIdentifier then
          (case index data (1 :: 'w word) of Panic \<Rightarrow> Panic
           | Return b1 \<Rightarrow>
             let len = (ucast b1 :: 'w word)
             in (case slice data spare 2 (2 + len) of Panic \<Rightarrow> Panic
                 | Return body \<Rightarrow>
                   (case parseObjectIdentifier body of Panic \<Rightarrow> Panic
                    | Return (oid, err) \<Rightarrow> Return (VInts oid, len + 2, err))))
        else Return (VNil, 0, Some (UnknownFieldType tag)))"

section \<open>Typed value decoder\<close>

text \<open>
  \<^verbatim>\<open>decodeValue\<close> has the named results \<^verbatim>\<open>(retVal *Variable, err error)\<close>: a pair of
  options, \<open>None\<close> being \<^verbatim>\<open>nil\<close>. Its argument \<^verbatim>\<open>data\<close> is again the pair of \<open>data\<close>
  and \<open>spare\<close>, passed on as it is to \<^verbatim>\<open>parseRawField\<close>. In the cases Counter32, Gauge32, TimeTicks and
  Counter64 the statement \<^verbatim>\<open>ret, err := parse...(...)\<close> declares a new \<^verbatim>\<open>err\<close> local to
  the case; on failure the case logs it and leaves the \<^verbatim>\<open>switch\<close> with \<^verbatim>\<open>break\<close>, and
  the final \<^verbatim>\<open>return\<close> gives back the untouched \<^verbatim>\<open>retVal\<close> and the named \<^verbatim>\<open>err\<close>, still
  \<^verbatim>\<open>nil\<close>.
\<close>

fun ipv4_loop :: "byte list \<Rightarrow> string \<Rightarrow> string" where
  "ipv4_loop [] ipv4 = ipv4"
| "ipv4_loop (b # bs) ipv4 = ipv4_loop bs (ipv4 @ CHR ''.'' # Sprintf_d (uint b))"

definition decodeValue ::
  "byte list \<Rightarrow> byte list \<Rightarrow> ((('w::len word) Variable) option \<times> error option) outcome" where
  "decodeValue data spare =
     (let retVal = (new_Variable :: ('w word) Variable) in
      case index data (0 :: 'w word) of Panic \<Rightarrow> Panic
      | Return tag \<Rightarrow>
        if tag = Integer then
          (case (parseLength data :: ('w word \<times> 'w word) outcome) of Panic \<Rightarrow> Panic
           | Return (len, cursor) \<Rightarrow>
             (case slice data spare cursor len of Panic \<Rightarrow> Panic
              | Return body \<Rightarrow>
                (case parseInt body of
                   Inl err \<Rightarrow> Return (Some retVal, Some (DecodeBytesErr data err))
                 | Inr ret \<Rightarrow> Return (Some (retVal\<lparr>Type := Integer, Value := VInt ret\<rparr>), None))))
        else if tag = OctetString then
          (case (parseLength data :: ('w word \<times> 'w word) outcome) of Panic \<Rightarrow> Panic
           | Return (len, cursor) \<Rightarrow>
             (case index data cursor of Panic \<Rightarrow> Panic
              | Return c \<Rightarrow>
                if c = 0 \<and> len = 2 then
                  Return (Some (retVal\<lparr>Type := OctetString, Value := VString []\<rparr>), None)
                else
                  (case slice data spare cursor len of Panic \<Rightarrow> Panic
                   | Return body \<Rightarrow>
                     if c = 0 then
                       Return (Some (retVal\<lparr>Type := OctetString,
                                              Value := VString (Sprintf_x_spaced body)\<rparr>), None)
                     else
                       Return (Some (retVal\<lparr>Type := OctetString,
                                              Value := VString (string_of_bytes body)\<rparr>), None))))
        else if tag = Null then
          Return (Some (retVal\<lparr>Type := Null, Value := VNil\<rparr>), None)
        else if tag = ObjectIdentifier then
          (case (parseRawField data spare :: (('w word) any \<times> 'w word \<times> error option) outcome) of
             Panic \<Rightarrow> Panic
           | Return (rawOid, n, err) \<Rightarrow>
             (case err of
                Some e \<Rightarrow> Return (None, Some (ErrorParsingOidValue e))
              | None \<Rightarrow>
                (case rawOid of
                   VInts oid \<Rightarrow>
                     (case oidToString oid of Panic \<Rightarrow> Panic
                      | Return str \<Rightarrow>
                        Return (Some (retVal\<lparr>Type := ObjectIdentifier, Value := VString str\<rparr>), None))
                 | _ \<Rightarrow> Return (None, Some TypeAssertFailed))))
        else if tag = IpAddress then
          (if length data < 6 then Return (None, Some (TruncatedIpAddress data))
           else if data ! 1 \<noteq> 4 then Return (None, Some (InvalidIpAddressLength (data ! 1)))
           else let ipv4 = ipv4_loop (take 4 (drop 2 data)) []
                in Return (Some (retVal\<lparr>Type := IpAddress, Value := VString (drop 1 ipv4)\<rparr>), None))
        else if tag = Counter32 then
          (case (parseLength data :: ('w word \<times> 'w word) outcome) of Panic \<Rightarrow> Panic
           | Return (len, cursor) \<Rightarrow>
             (case slice data spare cursor len of Panic \<Rightarrow> Panic
              | Return body \<Rightarrow>
                (case parseUint body of
                   Inl err \<Rightarrow> Return (Some retVal, None)
                 | Inr ret \<Rightarrow> Return (Some (retVal\<lparr>Type := Counter32, Value := VUint ret\<rparr>), None))))
        else if tag = Gauge32 then
          (case (parseLength data :: ('w word \<times> 'w word) outcome) of Panic \<Rightarrow> Panic
           | Return (len, cursor) \<Rightarrow>
             (case slice data spare cursor len of Panic \<Rightarrow> Panic
              | Return body \<Rightarrow>
                (case parseUint body of
                   Inl err \<Rightarrow> Return (Some retVal, None)
                 | Inr ret \<Rightarrow> Return (Some (retVal\<lparr>Type := Gauge32, Value := VUint ret\<rparr>), None))))
        else if tag = TimeTicks then
          (case (parseLength data :: ('w word \<times> 'w word) outcome) of Panic \<Rightarrow> Panic
           | Return (len, cursor) \<Rightarrow>
             (case slice data spare cursor len of Panic \<Rightarrow> Panic
              | Return body \<Rightarrow>
                (case parseInt body of
                   Inl err \<Rightarrow> Return (Some retVal, None)
                 | Inr ret \<Rightarrow> Return (Some (retVal\<lparr>Type := TimeTicks, Value := VInt ret\<rparr>), None))))
        else if tag = Counter64 then
          (case (parseLength data :: ('w word \<times> 'w word) outcome) of Panic \<Rightarrow> Panic
           | Return (len, cursor) \<Rightarrow>
             (case slice data spare cursor len of Panic \<Rightarrow> Panic
              | Return body \<Rightarrow>
                (case parseInt64 body of
                   Inl err \<Rightarrow> Return (Some retVal, None)
                 | Inr ret \<Rightarrow> Return (Some (retVal\<lparr>Type := Counter64, Value := VInt64 ret\<rparr>), None))))
        else if tag = NoSuchObject then
          Return (Some (retVal\<lparr>Type := NoSuchObject, Value := VNil\<rparr>), None)
        else if tag = NoSuchInstance then
          Return (Some (retVal\<lparr>Type := NoSuchInstance, Value := VNil\<rparr>), None)
        else Return (Some retVal, Some (UnsupportedType tag)))"

section \<open>Slices that stay within the length\<close>

text \<open>
  A slice expression whose upper bound does not exceed \<^verbatim>\<open>len(data)\<close> succeeds whatever
  the capacity is, and returns elements of \<^verbatim>\<open>data\<close> only.
\<close>

lemma slice_within:
  assumes "0 \<le> sint lo" and "sint lo \<le> sint hi" and "sint hi \<le> int (length xs)"
  shows "slice xs spare lo hi
         = Return (take (nat (sint hi) - nat (sint lo)) (drop (nat (sint lo)) xs))"
proof -
  have a: "nat (sint hi) \<le> length xs" using assms by linarith
  have b: "nat (sint hi) - nat (sint lo) \<le> length xs - nat (sint lo)" using a by linarith
  have "take (nat (sint hi) - nat (sint lo)) (drop (nat (sint lo)) (xs @ spare))
        = take (nat (sint hi) - nat (sint lo)) (drop (nat (sint lo)) xs)"
    using b by simp
  moreover have "sint hi \<le> int (length xs + length spare)" using assms(3) by simp
  ultimately show ?thesis using assms(1,2) by (simp add: slice_def)
qed

section \<open>Properties of the integer codec\<close>

lemma push8_or_byte:
  "push_bit 8 (x :: 'a::len word) OR ucast (b :: byte) = x * 256 + ucast b"
proof -
  have "push_bit 8 x + ucast b = push_bit 8 x OR ucast b"
    by (rule disjunctive_add) (auto simp: bit_simps dest: bit_imp_le_length)
  then show ?thesis by (simp add: push_bit_eq_mult)
qed

lemma parseInt64_loop_val: "parseInt64_loop bs (of_nat a) = of_nat (be_nat bs a)"
proof (induction bs arbitrary: a)
  case Nil
  show ?case by simp
next
  case (Cons b bs)
  have step: "push_bit 8 (of_nat a :: int64) OR ucast b = of_nat (a * 256 + unat b)"
    by (simp add: push8_or_byte)
  show ?case unfolding parseInt64_loop.simps be_nat.simps step by (rule Cons.IH)
qed

lemma be_nat_bound: "be_nat bs a < (a + 1) * 2 ^ (8 * length bs)"
proof (induction bs arbitrary: a)
  case Nil
  show ?case by simp
next
  case (Cons b bs)
  have "unat b < 256" using unsigned_less [of b] by simp
  then have "a * 256 + unat b + 1 \<le> (a + 1) * 256" by simp
  then have le: "(a * 256 + unat b + 1) * 2 ^ (8 * length bs) \<le> ((a + 1) * 256) * 2 ^ (8 * length bs)"
    by (rule mult_le_mono1)
  have "be_nat bs (a * 256 + unat b) < (a * 256 + unat b + 1) * 2 ^ (8 * length bs)"
    by (rule Cons.IH)
  from this le have "be_nat bs (a * 256 + unat b) < ((a + 1) * 256) * 2 ^ (8 * length bs)"
    by (rule less_le_trans)
  moreover have "((a + 1) * 256) * 2 ^ (8 * length bs) = (a + 1) * 2 ^ (8 * length (b # bs))"
    by (simp add: power_add algebra_simps)
  ultimately show ?case by simp
qed

lemma sign_extend_word:
  assumes "m < 64"
  shows "signed_drop_bit (63 - m) (push_bit (63 - m) (x :: int64)) = signed_take_bit m x"
  using assms by (intro bit_eqI) (auto simp: bit_simps)

lemma sint_signed_take_bit_of_nat:
  assumes "m < 64"
  shows "sint (signed_take_bit m (of_nat n :: int64)) = signed_take_bit m (int n)"
  using assms by (intro bit_eqI) (auto simp: bit_simps min_def)

lemma signed_take_bit_small:
  assumes "n < 2 ^ Suc m"
  shows "signed_take_bit m (int n) = (if 2 ^ m \<le> int n then int n - 2 ^ Suc m else int n)"
proof -
  have lt: "int n < 2 ^ Suc m"
    using assms by (metis of_nat_less_iff of_nat_numeral of_nat_power)
  have neg: "- (2 ^ m) \<le> int n" by (rule order_trans [of _ 0]) simp_all
  show ?thesis
  proof (cases "2 ^ m \<le> int n")
    case False
    then have "int n < 2 ^ m" by linarith
    with neg have "signed_take_bit m (int n) = int n" by (rule signed_take_bit_int_eq_self)
    with False show ?thesis by simp
  next
    case True
    have "take_bit (Suc m) (int n + 2 ^ m) = (int n + 2 ^ m) mod 2 ^ Suc m"
      by (simp only: take_bit_eq_mod)
    also have "\<dots> = (int n + 2 ^ m - 2 ^ Suc m) mod 2 ^ Suc m"
      by (metis minus_mod_self2)
    also have "\<dots> = int n + 2 ^ m - 2 ^ Suc m"
      using True lt by (intro mod_pos_pos_trivial) auto
    finally show ?thesis using True by (simp add: signed_take_bit_eq_take_bit_shift)
  qed
qed

lemma shift_amount:
  assumes "k \<le> 8"
  shows "unat ((64 :: 8 word) - of_nat k * 8) = 64 - 8 * k"
proof -
  have "unat (of_nat k * 8 :: 8 word) = 8 * k"
    using assms by (simp add: unat_word_ariths unat_of_nat)
  then show ?thesis using assms by (simp add: unat_sub_if')
qed

lemma sint_scast_gen:
  "sint (scast (x :: 'a::len word) :: 'b::len word) = signed_take_bit (LENGTH('b) - 1) (sint x)"
  by (subst scast_eq) (rule sint_sbintrunc')

lemma scast_round_trip:
  fixes r :: "'a::len word"
  shows "(r = scast (scast r :: 'b::len word)) \<longleftrightarrow>
         (- (2 ^ (LENGTH('b) - 1)) \<le> sint r \<and> sint r < 2 ^ (LENGTH('b) - 1))"
proof
  assume "r = scast (scast r :: 'b word)"
  then have "sint r = sint (scast (scast r :: 'b word) :: 'a word)" by simp
  then have eq: "sint r = signed_take_bit (min (LENGTH('a) - 1) (LENGTH('b) - 1)) (sint r)"
    by (simp add: sint_scast_gen signed_take_bit_signed_take_bit)
  show "- (2 ^ (LENGTH('b) - 1)) \<le> sint r \<and> sint r < 2 ^ (LENGTH('b) - 1)"
  proof (cases "LENGTH('b) \<le> LENGTH('a)")
    case True
    then have "min (LENGTH('a) - 1) (LENGTH('b) - 1) = LENGTH('b) - 1" by simp
    with eq have "signed_take_bit (LENGTH('b) - 1) (sint r) = sint r" by simp
    then show ?thesis by (simp only: signed_take_bit_int_eq_self_iff)
  next
    case False
    then have le: "(2::int) ^ (LENGTH('a) - 1) \<le> 2 ^ (LENGTH('b) - 1)"
      by (intro power_increasing) auto
    have "- (2 ^ (LENGTH('a) - 1)) \<le> sint r" "sint r < 2 ^ (LENGTH('a) - 1)"
      by (rule sint_ge, rule sint_lt)
    with le show ?thesis by linarith
  qed
next
  assume "- (2 ^ (LENGTH('b) - 1)) \<le> sint r \<and> sint r < 2 ^ (LENGTH('b) - 1)"
  then have "signed_take_bit (LENGTH('b) - 1) (sint r) = sint r"
    by (simp only: signed_take_bit_int_eq_self_iff)
  then have "sint (scast r :: 'b word) = sint r" by (simp add: sint_scast_gen)
  then have "scast (scast r :: 'b word) = (word_of_int (sint r) :: 'a word)"
    by (subst scast_eq) simp
  then show "r = scast (scast r :: 'b word)" by simp
qed

lemma parseInt64_value:
  assumes "length bs \<le> 8"
  shows "\<exists>r. parseInt64 bs = Inr r \<and> sint r = twos_complement bs"
proof (cases "bs = []")
  case True
  then show ?thesis by (simp add: parseInt64_def twos_complement_def)
next
  case False
  define k where "k = length bs"
  define m where "m = 8 * k - 1"
  define n where "n = be_nat bs 0"
  have k: "0 < k" "k \<le> 8" using False assms by (simp_all add: k_def)
  then have m: "m < 64" "63 - m = 64 - 8 * k" "Suc m = 8 * k" by (simp_all add: m_def)
  have n: "n < 2 ^ Suc m" using be_nat_bound [of bs 0] by (simp add: m k_def n_def)
  have loop: "parseInt64_loop bs 0 = of_nat n"
    using parseInt64_loop_val [of bs 0] by (simp add: n_def)
  have "parseInt64 bs = Inr (signed_take_bit m (of_nat n))"
    using assms sign_extend_word [OF m(1), of "of_nat n"]
    by (simp add: parseInt64_def loop shift_amount m(2) k_def [symmetric] Let_def)
  moreover have "sint (signed_take_bit m (of_nat n :: int64)) = twos_complement bs"
  proof -
    have "sint (signed_take_bit m (of_nat n :: int64)) = signed_take_bit m (int n)"
      by (rule sint_signed_take_bit_of_nat [OF m(1)])
    also have "\<dots> = (if 2 ^ m \<le> int n then int n - 2 ^ Suc m else int n)"
      by (rule signed_take_bit_small [OF n])
    also have "\<dots> = twos_complement bs"
      using k by (simp add: twos_complement_def k_def [symmetric] n_def [symmetric] m(3) Let_def)
         (simp add: m_def)
    finally show ?thesis .
  qed
  ultimately show ?thesis by simp
qed

text \<open>
  Claim C3, as the code has it. For every byte sequence \<open>b\<close> of at most 8 bytes,
  \<^verbatim>\<open>parseInt\<close> fails with \<open>IntegerTooLarge\<close> exactly when the two's-complement value
  of \<open>b\<close> does not fit the signed range of Go's \<^verbatim>\<open>int\<close>, whose width \<open>LENGTH('w)\<close>
  is that of the target (32 or 64 bits); otherwise it returns that value. On a 32-bit
  target this is the 32-bit container of the claim; on a 64-bit target no input of at
  most 8 bytes fails.
\<close>

theorem parseInt_int_range:
  fixes b :: "byte list"
  assumes "length b \<le> 8"
  shows "(parseInt b :: error + 'w::len word) =
           (if - (2 ^ (LENGTH('w) - 1)) \<le> twos_complement b \<and> twos_complement b < 2 ^ (LENGTH('w) - 1)
            then Inr (word_of_int (twos_complement b)) else Inl IntegerTooLarge)
         \<and> (\<forall>r :: 'w word. parseInt b = Inr r \<longrightarrow> sint r = twos_complement b)"
proof -
  obtain r64 where r64: "parseInt64 b = Inr r64" "sint r64 = twos_complement b"
    using parseInt64_value [OF assms] by blast
  have in_range: "(r64 = scast (scast r64 :: 'w word)) \<longleftrightarrow>
      (- (2 ^ (LENGTH('w) - 1)) \<le> twos_complement b \<and> twos_complement b < 2 ^ (LENGTH('w) - 1))"
    using scast_round_trip [of r64, where 'b = 'w] by (simp add: r64(2))
  have val: "(scast r64 :: 'w word) = word_of_int (twos_complement b)"
    by (simp add: scast_eq r64(2))
  have first: "(parseInt b :: error + 'w word) =
           (if - (2 ^ (LENGTH('w) - 1)) \<le> twos_complement b \<and> twos_complement b < 2 ^ (LENGTH('w) - 1)
            then Inr (word_of_int (twos_complement b)) else Inl IntegerTooLarge)"
    using in_range by (simp add: parseInt_def r64(1) val)
  have "sint (word_of_int (twos_complement b) :: 'w word) = twos_complement b"
    if "- (2 ^ (LENGTH('w) - 1)) \<le> twos_complement b" "twos_complement b < 2 ^ (LENGTH('w) - 1)"
    using that by (simp add: sint_sbintrunc' signed_take_bit_int_eq_self)
  with first show ?thesis by (auto split: if_splits)
qed

text \<open>
  The theorem at work: with a 32-bit \<^verbatim>\<open>int\<close> the five bytes \<^verbatim>\<open>00 80 00 00 00\<close>
  (the value \<open>2^31\<close>) are refused and \<^verbatim>\<open>ff 80 00 00 00\<close> (the value \<open>-2^31\<close>) is
  returned; with a 64-bit \<^verbatim>\<open>int\<close> the first input is returned too.
\<close>

theorem parseInt_int_range_witness:
  "length [0x00, 0x80, 0x00, 0x00, 0x00 :: byte] \<le> 8
   \<and> (parseInt [0x00, 0x80, 0x00, 0x00, 0x00] :: error + 32 word) = Inl IntegerTooLarge
   \<and> (parseInt [0xFF, 0x80, 0x00, 0x00, 0x00] :: error + 32 word) = Inr (- 0x80000000)
   \<and> (parseInt [0x00, 0x80, 0x00, 0x00, 0x00] :: error + 64 word) = Inr 0x80000000"
  using parseInt_int_range [of "[0x00, 0x80, 0x00, 0x00, 0x00]", where 'w = 32]
    parseInt_int_range [of "[0xFF, 0x80, 0x00, 0x00, 0x00]", where 'w = 32]
    parseInt_int_range [of "[0x00, 0x80, 0x00, 0x00, 0x00]", where 'w = 64]
  by (simp add: twos_complement_def)

text \<open>
  Claim C3 as stated, with a 32-bit container on every target, fails where \<^verbatim>\<open>int\<close>
  has 64 bits: the value \<open>2^31\<close> of \<^verbatim>\<open>00 80 00 00 00\<close> does not fit 32 signed bits,
  and \<^verbatim>\<open>parseInt\<close> returns it.
\<close>

theorem parseInt_32bit_container_counterexample:
  "length [0x00, 0x80, 0x00, 0x00, 0x00 :: byte] \<le> 8
   \<and> \<not> (twos_complement [0x00, 0x80, 0x00, 0x00, 0x00] < 2 ^ 31)
   \<and> (parseInt [0x00, 0x80, 0x00, 0x00, 0x00] :: error + 64 word) = Inr 0x80000000"
  by (simp add: twos_complement_def parseInt_def parseInt64_def)

section \<open>Properties of the big-integer bridge\<close>

lemma delta_val: "uint64ToBigIntDelta = 2 ^ 63"
  by (simp add: uint64ToBigIntDelta_def set_bit_eq_or)

lemma sint_eq_uint_small:
  assumes "uint (x :: uint64) < 2 ^ 63"
  shows "sint x = uint x"
proof -
  have "- (2 ^ 63) \<le> uint x" by (rule order_trans [of _ 0]) simp_all
  from this assms have "signed_take_bit 63 (uint x) = uint x"
    by (rule signed_take_bit_int_eq_self)
  then show ?thesis by (simp add: sint_uint)
qed

lemma MaxInt64_succ: "MaxInt64 + 1 = 2 ^ 63"
  by (simp add: MaxInt64_def)

lemma le_MaxInt64_iff: "n \<le> MaxInt64 \<longleftrightarrow> uint n < 2 ^ 63"
  by (simp add: MaxInt64_def word_le_def) linarith

lemma sint_above_MaxInt64:
  assumes "\<not> n \<le> MaxInt64"
  shows "sint (n - MaxInt64 - 1) = uint n - 2 ^ 63"
proof -
  have big: "2 ^ 63 \<le> uint n" using assms by (simp add: le_MaxInt64_iff)
  have lt: "uint n < 2 ^ 64" using uint_lt2p [of n] by simp
  have eq: "n - MaxInt64 - 1 = n - 2 ^ 63" by (simp add: MaxInt64_def)
  have "uint ((2 :: uint64) ^ 63) = 2 ^ 63" by simp
  then have u: "uint (n - 2 ^ 63) = uint n - 2 ^ 63"
    using big by (simp add: uint_sub_if')
  have "uint (n - 2 ^ 63) < 2 ^ 63" unfolding u using lt by simp
  then have "sint (n - 2 ^ 63) = uint (n - 2 ^ 63)" by (rule sint_eq_uint_small)
  then show ?thesis by (simp only: eq u)
qed

lemma uint64ToBigInt_exact: "uint64ToBigInt n = uint n"
proof (cases "n \<le> MaxInt64")
  case True
  then have "sint n = uint n" by (intro sint_eq_uint_small) (simp add: le_MaxInt64_iff)
  with True show ?thesis by (simp add: uint64ToBigInt_def)
next
  case False
  then show ?thesis by (simp add: uint64ToBigInt_def delta_val sint_above_MaxInt64)
qed

text \<open>
  Claim C7, as the code has it. For every \<^verbatim>\<open>uint64\<close> value \<open>n\<close> above the largest
  \<^verbatim>\<open>int64\<close>, \<^verbatim>\<open>uint64ToBigInt\<close> subtracts the signed maximum and one more, that is
  \<open>2^63\<close>, reads the remainder as an \<^verbatim>\<open>int64\<close> and adds the constant
  \<^verbatim>\<open>uint64ToBigIntDelta\<close>, which is \<open>2^63\<close>; the result is the value of \<open>n\<close>.
\<close>

theorem uint64ToBigInt_bridge:
  assumes "MaxInt64 < n"
  shows "uint64ToBigInt n = sint (n - MaxInt64 - 1) + 2 ^ 63
         \<and> uint64ToBigIntDelta = 2 ^ 63
         \<and> uint64ToBigInt n = uint n"
proof -
  from assms have "\<not> n \<le> MaxInt64" by simp
  then have "uint64ToBigInt n = sint (n - MaxInt64 - 1) + 2 ^ 63"
    by (simp add: uint64ToBigInt_def delta_val)
  then show ?thesis by (simp only: delta_val uint64ToBigInt_exact)
qed

text \<open>The theorem at the largest \<^verbatim>\<open>uint64\<close>.\<close>

theorem uint64ToBigInt_bridge_witness:
  "MaxInt64 < 0xFFFFFFFFFFFFFFFF \<and> uint64ToBigInt 0xFFFFFFFFFFFFFFFF = 18446744073709551615"
  using uint64ToBigInt_bridge [of "0xFFFFFFFFFFFFFFFF"] by (simp add: MaxInt64_def)

text \<open>
  Claim C7 as stated subtracts only the signed maximum before adding \<open>2^63\<close>. At
  \<open>n = 2^63\<close> that sum is \<open>2^63 + 1\<close>, and the function returns \<open>2^63\<close>.
\<close>

theorem uint64ToBigInt_subtract_max_counterexample:
  "MaxInt64 < 0x8000000000000000
   \<and> uint64ToBigInt 0x8000000000000000 = 9223372036854775808
   \<and> sint ((0x8000000000000000 :: uint64) - MaxInt64) + uint64ToBigIntDelta = 9223372036854775809"
  by (simp add: MaxInt64_def uint64ToBigInt_def uint64ToBigIntDelta_def set_bit_eq_or)

section \<open>Properties of the bit string codec\<close>

lemma sint_of_nat_small:
  assumes "int n < 2 ^ (LENGTH('w::len) - 1)"
  shows "sint (of_nat n :: 'w word) = int n"
proof -
  have "- (2 ^ (LENGTH('w) - 1)) \<le> int n" by (rule order_trans [of _ 0]) simp_all
  from this assms have "signed_take_bit (LENGTH('w) - 1) (int n) = int n"
    by (rule signed_take_bit_int_eq_self)
  moreover have "sint (word_of_int (int n) :: 'w word) = signed_take_bit (LENGTH('w) - 1) (int n)"
    by (rule sint_sbintrunc')
  ultimately show ?thesis by simp
qed

lemma byte_lt_256: "unat (b :: byte) < 256"
  using unsigned_less [of b] by simp

lemma pow_mono_int: "m \<le> n \<Longrightarrow> (2::int) ^ m \<le> 2 ^ n"
  by (rule power_increasing) simp_all

lemma sint_ucast_byte:
  assumes "8 < LENGTH('w::len)"
  shows "sint (ucast (b :: byte) :: 'w word) = int (unat b)"
proof -
  have "(2::int) ^ 8 \<le> 2 ^ (LENGTH('w) - 1)" using assms by (intro pow_mono_int) simp
  moreover have "int (unat b) < 256" using byte_lt_256 [of b] by linarith
  moreover have "(2::int) ^ 8 = 256" by simp
  ultimately have "int (unat b) < 2 ^ (LENGTH('w) - 1)" by linarith
  then have "sint (of_nat (unat b) :: 'w word) = int (unat b)" by (rule sint_of_nat_small)
  then show ?thesis by (simp only: of_nat_unat)
qed

lemma padding_mask:
  "(x :: byte) AND (push_bit p 1 - 1) = 0 \<longleftrightarrow> unat x mod 2 ^ p = 0"
proof -
  have "x AND (push_bit p 1 - 1) = take_bit p x"
    by (simp add: push_bit_eq_mult mask_eq_decr_exp [symmetric] take_bit_eq_mask)
  moreover have "take_bit p x = 0 \<longleftrightarrow> unat (take_bit p x) = 0" by (simp add: unat_eq_0)
  moreover have "unat (take_bit p x) = unat x mod 2 ^ p"
    by (subst unsigned_take_bit_eq) (rule take_bit_eq_mod)
  ultimately show ?thesis by simp
qed

lemma int_256_le_pow:
  assumes "8 < LENGTH('w::len)"
  shows "(256::int) \<le> 2 ^ (LENGTH('w) - 1)"
proof -
  have "(2::int) ^ 8 \<le> 2 ^ (LENGTH('w) - 1)" using assms by (intro pow_mono_int) simp
  then show ?thesis by simp
qed

lemma sint_numeral_small:
  assumes "(numeral k :: int) < 2 ^ (LENGTH('w::len) - 1)"
  shows "sint (numeral k :: 'w word) = numeral k"
proof -
  have "- (2 ^ (LENGTH('w) - 1)) \<le> (numeral k :: int)" by (rule order_trans [of _ 0]) simp_all
  from this assms have "signed_take_bit (LENGTH('w) - 1) (numeral k :: int) = numeral k"
    by (rule signed_take_bit_int_eq_self)
  then show ?thesis by (simp only: sint_sbintrunc)
qed

lemma parseBitString_unfold:
  fixes b :: "byte list"
  assumes w: "8 < LENGTH('w::len)" and ne: "b \<noteq> []"
  shows "(parseBitString b :: error + 'w word BitStringValue) =
           (if 7 < unat (hd b) \<or> (length b = 1 \<and> hd b \<noteq> 0) \<or> unat (last b) mod 2 ^ unat (hd b) \<noteq> 0
            then Inl InvalidPadding
            else Inr \<lparr> Bytes = tl b, BitLength = (of_nat (length b) - 1) * 8 - ucast (hd b) \<rparr>)"
proof -
  have hd: "b ! 0 = hd b" using ne by (simp add: hd_conv_nth)
  have last: "b ! (length b - 1) = last b" using ne by (simp add: last_conv_nth)
  have s7: "sint (7 :: 'w word) = 7"
    using int_256_le_pow [OF w] by (intro sint_numeral_small) linarith
  have c1: "(7 :: 'w word) <s ucast (hd b) \<longleftrightarrow> 7 < unat (hd b)"
    unfolding word_sless_alt s7 sint_ucast_byte [OF w] by linarith
  have c2: "(0 :: 'w word) <s ucast (hd b) \<longleftrightarrow> hd b \<noteq> 0"
    unfolding word_sless_alt sint_ucast_byte [OF w] by (simp only: sint_0 of_nat_0_less_iff unat_gt_0)
  have last': "b ! (length b - Suc 0) = last b" using last by simp
  have pm: "(x AND (2 ^ p - 1) = 0) \<longleftrightarrow> unat x mod 2 ^ p = 0" for x :: byte and p
    using padding_mask [of x p] by (simp add: push_bit_eq_mult)
  show ?thesis
    using ne by (simp add: parseBitString_def hd last' c1 c2 pm Let_def drop_Suc)
qed

lemma BitLength_sint:
  fixes b :: "byte list"
  assumes w: "8 < LENGTH('w::len)" and ne: "b \<noteq> []"
    and pad: "unat (hd b) \<le> 7" "length b = 1 \<longrightarrow> hd b = 0"
    and fits: "int (length b) * 8 < 2 ^ (LENGTH('w) - 1)"
  shows "sint ((of_nat (length b) - 1) * 8 - ucast (hd b) :: 'w word)
         = (int (length b) - 1) * 8 - int (unat (hd b))"
proof -
  define n where "n = (length b - 1) * 8 - unat (hd b)"
  have len: "1 \<le> length b" using ne by (cases b) simp_all
  have le: "unat (hd b) \<le> (length b - 1) * 8"
  proof (cases "length b = 1")
    case True
    with pad(2) show ?thesis by simp
  next
    case False
    with len have "2 \<le> length b" by simp
    with pad(1) show ?thesis by simp
  qed
  have "(of_nat (length b) - 1) * 8 - ucast (hd b) = (of_nat n :: 'w word)"
    using len le by (simp add: n_def of_nat_diff)
  moreover have "int n = (int (length b) - 1) * 8 - int (unat (hd b))"
    using len le by (simp add: n_def of_nat_diff)
  moreover have "int n \<le> int (length b) * 8" by (simp add: n_def)
  then have "int n < 2 ^ (LENGTH('w) - 1)" using fits by (rule le_less_trans)
  ultimately show ?thesis by (simp only: sint_of_nat_small)
qed

lemma parseBitString_zeros:
  assumes w: "8 < LENGTH('w::len)"
  shows "(parseBitString (replicate (Suc n) 0) :: error + 'w word BitStringValue)
         = Inr \<lparr> Bytes = replicate n 0, BitLength = of_nat n * 8 \<rparr>"
proof -
  have ne: "replicate (Suc n) (0 :: byte) \<noteq> []" by simp
  have l: "last (replicate (Suc n) (0 :: byte)) = 0" by simp
  have h: "hd (replicate (Suc n) (0 :: byte)) = 0" by simp
  have t: "tl (replicate (Suc n) (0 :: byte)) = replicate n 0" by simp
  have n: "length (replicate (Suc n) (0 :: byte)) = 1 \<longleftrightarrow> n = 0" by simp
  have v: "(of_nat (length (replicate (Suc n) (0 :: byte))) - 1) * 8 - ucast (0 :: byte)
           = (of_nat n * 8 :: 'w word)" by simp
  show ?thesis
    unfolding parseBitString_unfold [OF w ne] l h t v by simp
qed

text \<open>
  Claim C8, with the side condition it needs. \<^verbatim>\<open>parseBitString\<close> fails with \<open>EmptyBitString\<close> on the empty input.
  On any other input it fails, with \<open>InvalidPadding\<close>, exactly when the first byte
  (the padding count) exceeds 7, or the input is that one byte and the count is not
  zero, or the low padding-count bits of the last byte are not all zero; otherwise
  \<^verbatim>\<open>Bytes\<close> is the input without its first byte and \<^verbatim>\<open>BitLength\<close> is
  the \<^verbatim>\<open>int\<close> expression \<^verbatim>\<open>(len(b) - 1) * 8 - padding\<close>, which wraps around; it is the
  integer \<open>(len(b) - 1) * 8 - padding\<close> of the claim whenever \<open>8 * len(b)\<close> fits an
  \<^verbatim>\<open>int\<close>, and the claim's equation is only proved under that condition. \<^verbatim>\<open>04 f0\<close>
  gives \<open>BitLength = 4\<close> and \<^verbatim>\<open>04 f8\<close> fails. The width of \<^verbatim>\<open>int\<close> is only assumed
  to exceed 8 bits.
\<close>

theorem parseBitString_spec:
  fixes b :: "byte list"
  assumes w: "8 < LENGTH('w::len)"
  shows "(b = [] \<longrightarrow> (parseBitString b :: error + 'w word BitStringValue) = Inl EmptyBitString)
       \<and> (b \<noteq> [] \<longrightarrow>
            (parseBitString b :: error + 'w word BitStringValue) =
              (if 7 < unat (hd b) \<or> (length b = 1 \<and> hd b \<noteq> 0)
                  \<or> unat (last b) mod 2 ^ unat (hd b) \<noteq> 0
               then Inl InvalidPadding
               else Inr \<lparr> Bytes = tl b, BitLength = (of_nat (length b) - 1) * 8 - ucast (hd b) \<rparr>))
       \<and> (\<forall>r :: 'w word BitStringValue.
             parseBitString b = Inr r \<and> int (length b) * 8 < 2 ^ (LENGTH('w) - 1) \<longrightarrow>
             sint (BitLength r) = (int (length b) - 1) * 8 - int (unat (hd b)))
       \<and> (parseBitString [0x04, 0xF0] :: error + 'w word BitStringValue)
            = Inr \<lparr> Bytes = [0xF0], BitLength = 4 \<rparr>
       \<and> (parseBitString [0x04, 0xF8] :: error + 'w word BitStringValue) = Inl InvalidPadding"
proof (intro conjI impI allI)
  assume "b = []"
  then show "(parseBitString b :: error + 'w word BitStringValue) = Inl EmptyBitString"
    by (simp add: parseBitString_def)
next
  assume "b \<noteq> []"
  then show "(parseBitString b :: error + 'w word BitStringValue) =
              (if 7 < unat (hd b) \<or> (length b = 1 \<and> hd b \<noteq> 0)
                  \<or> unat (last b) mod 2 ^ unat (hd b) \<noteq> 0
               then Inl InvalidPadding
               else Inr \<lparr> Bytes = tl b, BitLength = (of_nat (length b) - 1) * 8 - ucast (hd b) \<rparr>)"
    by (rule parseBitString_unfold [OF w])
next
  fix r :: "'w word BitStringValue"
  assume a: "parseBitString b = Inr r \<and> int (length b) * 8 < 2 ^ (LENGTH('w) - 1)"
  then have ne: "b \<noteq> []" by (auto simp: parseBitString_def)
  from a have ok: "\<not> 7 < unat (hd b)" "length b = 1 \<longrightarrow> hd b = 0"
    and r: "r = \<lparr> Bytes = tl b, BitLength = (of_nat (length b) - 1) * 8 - ucast (hd b) \<rparr>"
    unfolding parseBitString_unfold [OF w ne] by (auto split: if_splits)
  from ok(1) have "unat (hd b) \<le> 7" by simp
  from BitLength_sint [OF w ne this ok(2)] a
  show "sint (BitLength r) = (int (length b) - 1) * 8 - int (unat (hd b))"
    by (simp add: r)
next
  show "(parseBitString [0x04, 0xF0] :: error + 'w word BitStringValue)
            = Inr \<lparr> Bytes = [0xF0], BitLength = 4 \<rparr>"
    by (subst parseBitString_unfold [OF w]) simp_all
next
  show "(parseBitString [0x04, 0xF8] :: error + 'w word BitStringValue) = Inl InvalidPadding"
    by (subst parseBitString_unfold [OF w]) simp_all
qed

text \<open>The theorem with a 32-bit \<^verbatim>\<open>int\<close>, on a success and on each way to fail.\<close>

theorem parseBitString_spec_witness:
  "8 < LENGTH(32)
   \<and> (parseBitString [0x03, 0xAB, 0xC8] :: error + 32 word BitStringValue)
        = Inr \<lparr> Bytes = [0xAB, 0xC8], BitLength = 13 \<rparr>
   \<and> (parseBitString [0x00] :: error + 32 word BitStringValue)
        = Inr \<lparr> Bytes = [], BitLength = 0 \<rparr>
   \<and> (parseBitString [0x01] :: error + 32 word BitStringValue) = Inl InvalidPadding
   \<and> (parseBitString [0x08, 0x00] :: error + 32 word BitStringValue) = Inl InvalidPadding
   \<and> (parseBitString [] :: error + 32 word BitStringValue) = Inl EmptyBitString"
  using parseBitString_spec [of "[0x03, 0xAB, 0xC8]", where 'w = 32]
    parseBitString_spec [of "[0x00]", where 'w = 32]
    parseBitString_spec [of "[0x01]", where 'w = 32]
    parseBitString_spec [of "[0x08, 0x00]", where 'w = 32]
    parseBitString_spec [of "[]", where 'w = 32]
  by simp

text \<open>
  Claim C8 as stated, for every byte sequence, fails where \<open>8 * len(b)\<close> does not fit
  an \<^verbatim>\<open>int\<close>: with a 32-bit \<^verbatim>\<open>int\<close> and \<open>2^28 + 1\<close> zero bytes (padding count 0, then
  \<open>2^28\<close> data bytes) the call succeeds and \<^verbatim>\<open>BitLength\<close> is \<open>- 2^31\<close>, whereas
  \<open>(len(b) - 1) * 8 - padding\<close> is \<open>2^31\<close>.
\<close>

theorem parseBitString_BitLength_counterexample:
  "(parseBitString (replicate (Suc 268435456) 0) :: error + 32 word BitStringValue)
     = Inr \<lparr> Bytes = replicate 268435456 0, BitLength = 0x80000000 \<rparr>
   \<and> sint (0x80000000 :: 32 word) = - 2147483648
   \<and> (int (length (replicate (Suc 268435456) (0 :: byte))) - 1) * 8
        - int (unat (hd (replicate (Suc 268435456) (0 :: byte)))) = 2147483648"
proof -
  have w: "8 < LENGTH(32)" by simp
  have v: "(of_nat 268435456 * 8 :: 32 word) = 0x80000000" by simp
  have a: "(parseBitString (replicate (Suc 268435456) 0) :: error + 32 word BitStringValue)
     = Inr \<lparr> Bytes = replicate 268435456 0, BitLength = 0x80000000 \<rparr>"
    unfolding parseBitString_zeros [OF w] v by (rule refl)
  have b: "sint (0x80000000 :: 32 word) = - 2147483648" by simp
  have c: "(int (length (replicate (Suc 268435456) (0 :: byte))) - 1) * 8
        - int (unat (hd (replicate (Suc 268435456) (0 :: byte)))) = 2147483648"
    by (simp only: length_replicate hd_replicate) simp
  from a b c show ?thesis by (intro conjI)
qed

section \<open>Properties of the two decode entry points\<close>

lemmas tag_defs = Integer_def OctetString_def Null_def ObjectIdentifier_def
  IpAddress_def Counter32_def Gauge32_def TimeTicks_def Counter64_def
  NoSuchObject_def NoSuchInstance_def

lemma index_0: "index (x # xs) (0 :: 'w::len word) = Return x"
  by (simp add: index_def)

lemma index_empty: "index [] (i :: 'w::len word) = Panic"
  by (simp add: index_def)

lemma sint_1_word: "1 < LENGTH('w::len) \<Longrightarrow> sint (1 :: 'w word) = 1"
  by (cases "LENGTH('w)") (simp_all add: Suc_lessI)

lemma sint_2_word:
  assumes "8 < LENGTH('w::len)"
  shows "sint (2 :: 'w word) = 2"
proof -
  have "(256::int) \<le> 2 ^ (LENGTH('w) - 1)" by (rule int_256_le_pow [OF assms])
  then show ?thesis by (intro sint_numeral_small) linarith
qed

lemma index_1_short:
  fixes x :: byte
  assumes "8 < LENGTH('w::len)"
  shows "index [x] (1 :: 'w word) = Panic"
  using sint_1_word [where 'w = 'w] assms by (simp add: index_def)

lemma index_2_short:
  fixes x y :: byte
  assumes "8 < LENGTH('w::len)"
  shows "index [x, y] (2 :: 'w word) = Panic"
  using sint_2_word [OF assms] by (simp add: index_def)

lemma parseLength_short:
  "length bytes \<le> 2 \<Longrightarrow> (parseLength bytes :: ('w::len word \<times> 'w word) outcome) = Return (2, 1)"
  by (simp add: parseLength_def)

lemma decodeValue_Integer:
  "(decodeValue (Integer # rest) spare :: ((('w::len) word) Variable option \<times> error option) outcome) =
     (case (parseLength (Integer # rest) :: ('w word \<times> 'w word) outcome) of
        Panic \<Rightarrow> Panic
      | Return (len, cursor) \<Rightarrow>
          (case slice (Integer # rest) spare cursor len of
             Panic \<Rightarrow> Panic
           | Return body \<Rightarrow>
               (case parseInt body of
                  Inl err \<Rightarrow> Return (Some new_Variable, Some (DecodeBytesErr (Integer # rest) err))
                | Inr ret \<Rightarrow>
                    Return (Some (new_Variable\<lparr>Type := Integer, Value := VInt ret\<rparr>), None))))"
  unfolding decodeValue_def Let_def index_0 by (simp add: tag_defs)

lemma decodeValue_OctetString:
  "(decodeValue (OctetString # rest) spare :: ((('w::len) word) Variable option \<times> error option) outcome) =
     (case (parseLength (OctetString # rest) :: ('w word \<times> 'w word) outcome) of
        Panic \<Rightarrow> Panic
      | Return (len, cursor) \<Rightarrow>
          (case index (OctetString # rest) cursor of
             Panic \<Rightarrow> Panic
           | Return c \<Rightarrow>
               if c = 0 \<and> len = 2 then
                 Return (Some (new_Variable\<lparr>Type := OctetString, Value := VString []\<rparr>), None)
               else
                 (case slice (OctetString # rest) spare cursor len of
                    Panic \<Rightarrow> Panic
                  | Return body \<Rightarrow>
                      if c = 0 then
                        Return (Some (new_Variable\<lparr>Type := OctetString,
                                  Value := VString (Sprintf_x_spaced body)\<rparr>), None)
                      else
                        Return (Some (new_Variable\<lparr>Type := OctetString,
                                  Value := VString (string_of_bytes body)\<rparr>), None))))"
  unfolding decodeValue_def Let_def index_0 by (simp add: tag_defs)

lemma decodeValue_ObjectIdentifier:
  "(decodeValue (ObjectIdentifier # rest) spare :: ((('w::len) word) Variable option \<times> error option) outcome) =
     (case (parseRawField (ObjectIdentifier # rest) spare :: (('w word) any \<times> 'w word \<times> error option) outcome) of
        Panic \<Rightarrow> Panic
      | Return (rawOid, n, err) \<Rightarrow>
          (case err of
             Some e \<Rightarrow> Return (None, Some (ErrorParsingOidValue e))
           | None \<Rightarrow>
               (case rawOid of
                  VInts oid \<Rightarrow>
                    (case oidToString oid of
                       Panic \<Rightarrow> Panic
                     | Return str \<Rightarrow>
                         Return (Some (new_Variable\<lparr>Type := ObjectIdentifier, Value := VString str\<rparr>), None))
                | _ \<Rightarrow> Return (None, Some TypeAssertFailed))))"
  unfolding decodeValue_def Let_def index_0 by (simp add: tag_defs)

lemma decodeValue_Counter32:
  "(decodeValue (Counter32 # rest) spare :: ((('w::len) word) Variable option \<times> error option) outcome) =
     (case (parseLength (Counter32 # rest) :: ('w word \<times> 'w word) outcome) of
        Panic \<Rightarrow> Panic
      | Return (len, cursor) \<Rightarrow>
          (case slice (Counter32 # rest) spare cursor len of
             Panic \<Rightarrow> Panic
           | Return body \<Rightarrow>
               (case parseUint body of
                  Inl err \<Rightarrow> Return (Some new_Variable, None)
                | Inr ret \<Rightarrow>
                    Return (Some (new_Variable\<lparr>Type := Counter32, Value := VUint ret\<rparr>), None))))"
  unfolding decodeValue_def Let_def index_0 by (simp add: tag_defs)

lemma decodeValue_Gauge32:
  "(decodeValue (Gauge32 # rest) spare :: ((('w::len) word) Variable option \<times> error option) outcome) =
     (case (parseLength (Gauge32 # rest) :: ('w word \<times> 'w word) outcome) of
        Panic \<Rightarrow> Panic
      | Return (len, cursor) \<Rightarrow>
          (case slice (Gauge32 # rest) spare cursor len of
             Panic \<Rightarrow> Panic
           | Return body \<Rightarrow>
               (case parseUint body of
                  Inl err \<Rightarrow> Return (Some new_Variable, None)
                | Inr ret \<Rightarrow>
                    Return (Some (new_Variable\<lparr>Type := Gauge32, Value := VUint ret\<rparr>), None))))"
  unfolding decodeValue_def Let_def index_0 by (simp add: tag_defs)

lemma decodeValue_TimeTicks:
  "(decodeValue (TimeTicks # rest) spare :: ((('w::len) word) Variable option \<times> error option) outcome) =
     (case (parseLength (TimeTicks # rest) :: ('w word \<times> 'w word) outcome) of
        Panic \<Rightarrow> Panic
      | Return (len, cursor) \<Rightarrow>
          (case slice (TimeTicks # rest) spare cursor len of
             Panic \<Rightarrow> Panic
           | Return body \<Rightarrow>
               (case parseInt body of
                  Inl err \<Rightarrow> Return (Some new_Variable, None)
                | Inr ret \<Rightarrow>
                    Return (Some (new_Variable\<lparr>Type := TimeTicks, Value := VInt ret\<rparr>), None))))"
  unfolding decodeValue_def Let_def index_0 by (simp add: tag_defs)

lemma decodeValue_Counter64:
  "(decodeValue (Counter64 # rest) spare :: ((('w::len) word) Variable option \<times> error option) outcome) =
     (case (parseLength (Counter64 # rest) :: ('w word \<times> 'w word) outcome) of
        Panic \<Rightarrow> Panic
      | Return (len, cursor) \<Rightarrow>
          (case slice (Counter64 # rest) spare cursor len of
             Panic \<Rightarrow> Panic
           | Return body \<Rightarrow>
               (case parseInt64 body of
                  Inl err \<Rightarrow> Return (Some new_Variable, None)
                | Inr ret \<Rightarrow>
                    Return (Some (new_Variable\<lparr>Type := Counter64, Value := VInt64 ret\<rparr>), None))))"
  unfolding decodeValue_def Let_def index_0 by (simp add: tag_defs)

lemma parseRawField_Integer:
  "(parseRawField (Integer # rest) spare :: (('w::len word) any \<times> 'w word \<times> error option) outcome) =
     (case index (Integer # rest) (1 :: 'w word) of
        Panic \<Rightarrow> Panic
      | Return b1 \<Rightarrow>
          if (ucast b1 :: 'w word) = 1 then
            (case index (Integer # rest) (2 :: 'w word) of
               Panic \<Rightarrow> Panic
             | Return b2 \<Rightarrow> Return (VInt (ucast b2), 3, None))
          else
            (case slice (Integer # rest) spare 2 (2 + (ucast b1 :: 'w word)) of
               Panic \<Rightarrow> Panic
             | Return body \<Rightarrow>
                 (case parseUint body of
                    Inl err \<Rightarrow> Return (VUint 0, 2 + ucast b1, Some err)
                  | Inr resp \<Rightarrow> Return (VUint resp, 2 + ucast b1, None))))"
  unfolding parseRawField_def Let_def index_0 by (simp add: tag_defs)

lemma parseRawField_OctetString:
  "(parseRawField (OctetString # rest) spare :: (('w::len word) any \<times> 'w word \<times> error option) outcome) =
     (case (parseLength (OctetString # rest) :: ('w word \<times> 'w word) outcome) of
        Panic \<Rightarrow> Panic
      | Return (len, cursor) \<Rightarrow>
          (case slice (OctetString # rest) spare cursor len of
             Panic \<Rightarrow> Panic
           | Return body \<Rightarrow> Return (VString (string_of_bytes body), len, None)))"
  unfolding parseRawField_def Let_def index_0 by (simp add: tag_defs)

lemma parseRawField_ObjectIdentifier:
  "(parseRawField (ObjectIdentifier # rest) spare :: (('w::len word) any \<times> 'w word \<times> error option) outcome) =
     (case index (ObjectIdentifier # rest) (1 :: 'w word) of
        Panic \<Rightarrow> Panic
      | Return b1 \<Rightarrow>
          (case slice (ObjectIdentifier # rest) spare 2 (2 + (ucast b1 :: 'w word)) of
             Panic \<Rightarrow> Panic
           | Return body \<Rightarrow>
               (case parseObjectIdentifier body of
                  Panic \<Rightarrow> Panic
                | Return (oid, err) \<Rightarrow> Return (VInts oid, ucast b1 + 2, err))))"
  unfolding parseRawField_def Let_def index_0 by (simp add: tag_defs)

text \<open>
  Claim C9. \<^verbatim>\<open>decodeValue\<close> and \<^verbatim>\<open>parseRawField\<close> index \<^verbatim>\<open>data[0]\<close>, and on the
  Integer, OctetString, ObjectIdentifier and counter paths \<^verbatim>\<open>data[1]\<close> and the value
  bytes, without looking at \<^verbatim>\<open>len(data)\<close> first. On the empty buffer both panic,
  whatever the width of \<^verbatim>\<open>int\<close> and the capacity of the buffer. With a 32-bit and
  with a 64-bit \<^verbatim>\<open>int\<close>, and whatever the capacity, they also panic on a buffer that
  ends after the tag where the code goes on to index \<^verbatim>\<open>data[1]\<close> (\<^verbatim>\<open>decodeValue\<close> on
  OctetString and ObjectIdentifier, \<^verbatim>\<open>parseRawField\<close> on Integer and
  ObjectIdentifier), and after the length byte where it indexes \<^verbatim>\<open>data[2]\<close>
  (\<^verbatim>\<open>parseRawField\<close> on an Integer of length 1): an out-of-range access, not an error
  value. Where the value bytes are taken by a slice expression the bound is the
  capacity: \<^verbatim>\<open>decodeValue\<close> on the lone tag Integer, \<^verbatim>\<open>decodeValue\<close> on a Counter64
  that announces 8 bytes and holds 1, and \<^verbatim>\<open>parseRawField\<close> on an OctetString that
  announces 5 bytes and holds 1 panic when the buffer has no spare capacity; with one
  spare byte \<^verbatim>\<open>07\<close> behind the lone tag Integer, \<^verbatim>\<open>decodeValue\<close> returns the Integer
  7, read from behind the buffer.
\<close>

theorem entry_points_panic_on_short_buffers:
  "(decodeValue [] spare :: (('w::len word) Variable option \<times> error option) outcome) = Panic
   \<and> (parseRawField [] spare :: (('w word) any \<times> 'w word \<times> error option) outcome) = Panic
   \<and> (decodeValue [OctetString] spare :: ((32 word) Variable option \<times> error option) outcome) = Panic
   \<and> (decodeValue [OctetString] spare :: ((64 word) Variable option \<times> error option) outcome) = Panic
   \<and> (decodeValue [ObjectIdentifier] spare :: ((32 word) Variable option \<times> error option) outcome) = Panic
   \<and> (decodeValue [ObjectIdentifier] spare :: ((64 word) Variable option \<times> error option) outcome) = Panic
   \<and> (parseRawField [Integer] spare :: ((32 word) any \<times> 32 word \<times> error option) outcome) = Panic
   \<and> (parseRawField [Integer] spare :: ((64 word) any \<times> 64 word \<times> error option) outcome) = Panic
   \<and> (parseRawField [Integer, 0x01] spare :: ((32 word) any \<times> 32 word \<times> error option) outcome) = Panic
   \<and> (parseRawField [Integer, 0x01] spare :: ((64 word) any \<times> 64 word \<times> error option) outcome) = Panic
   \<and> (parseRawField [ObjectIdentifier] spare :: ((32 word) any \<times> 32 word \<times> error option) outcome) = Panic
   \<and> (parseRawField [ObjectIdentifier] spare :: ((64 word) any \<times> 64 word \<times> error option) outcome) = Panic
   \<and> (decodeValue [Integer] [] :: ((32 word) Variable option \<times> error option) outcome) = Panic
   \<and> (decodeValue [Counter64, 0x08, 0x01] [] :: ((32 word) Variable option \<times> error option) outcome) = Panic
   \<and> (parseRawField [OctetString, 0x05, 0x41] [] :: ((32 word) any \<times> 32 word \<times> error option) outcome) = Panic
   \<and> (decodeValue [Integer] [0x07] :: ((32 word) Variable option \<times> error option) outcome)
       = Return (Some \<lparr> Type = Integer, Value = VInt 7 \<rparr>, None)"
proof -
  have 1: "(decodeValue [] spare :: (('w word) Variable option \<times> error option) outcome) = Panic"
    by (simp add: decodeValue_def index_empty)
  have 2: "(parseRawField [] spare :: (('w word) any \<times> 'w word \<times> error option) outcome) = Panic"
    by (simp add: parseRawField_def index_empty)
  have os: "(decodeValue [OctetString] spare :: (('v::len word) Variable option \<times> error option) outcome) = Panic"
    if "8 < LENGTH('v)"
    unfolding decodeValue_OctetString using index_1_short [OF that]
    by (simp add: parseLength_short)
  have ri: "(parseRawField [Integer] spare :: (('v::len word) any \<times> 'v word \<times> error option) outcome) = Panic"
    if "8 < LENGTH('v)"
    unfolding parseRawField_Integer using index_1_short [OF that] by simp
  have ro: "(parseRawField [ObjectIdentifier] spare :: (('v::len word) any \<times> 'v word \<times> error option) outcome) = Panic"
    if "8 < LENGTH('v)"
    unfolding parseRawField_ObjectIdentifier using index_1_short [OF that] by simp
  have oi: "(decodeValue [ObjectIdentifier] spare :: (('v::len word) Variable option \<times> error option) outcome) = Panic"
    if "8 < LENGTH('v)"
    unfolding decodeValue_ObjectIdentifier ro [OF that] by simp
  have i1: "index [Integer, 0x01] (1 :: 'v::len word) = Return 1" if "8 < LENGTH('v)"
    using sint_1_word [where 'w = 'v] that by (simp add: index_def)
  have r1: "(parseRawField [Integer, 0x01] spare :: (('v::len word) any \<times> 'v word \<times> error option) outcome) = Panic"
    if "8 < LENGTH('v)"
    unfolding parseRawField_Integer i1 [OF that] using index_2_short [OF that] by simp
  have w32: "8 < LENGTH(32)" and w64: "8 < LENGTH(64)" by simp_all
  have 13: "(decodeValue [Integer] [] :: ((32 word) Variable option \<times> error option) outcome) = Panic"
    by code_simp
  have 14: "(decodeValue [Counter64, 0x08, 0x01] [] :: ((32 word) Variable option \<times> error option) outcome) = Panic"
    by code_simp
  have 15: "(parseRawField [OctetString, 0x05, 0x41] [] :: ((32 word) any \<times> 32 word \<times> error option) outcome) = Panic"
    by code_simp
  have 16: "(decodeValue [Integer] [0x07] :: ((32 word) Variable option \<times> error option) outcome)
       = Return (Some \<lparr> Type = Integer, Value = VInt 7 \<rparr>, None)"
    by code_simp
  from 1 2 os [OF w32] os [OF w64] oi [OF w32] oi [OF w64] ri [OF w32] ri [OF w64]
    r1 [OF w32] r1 [OF w64] ro [OF w32] ro [OF w64] 13 14 15 16
  show ?thesis by (intro conjI)
qed

text \<open>
  Claim C2 asks that a Counter32, Gauge32, TimeTicks or Counter64 value region that
  fails numeric parsing be reported as an error. The code does not: with nine value
  bytes \<^verbatim>\<open>parseInt64\<close> fails, and \<^verbatim>\<open>decodeValue\<close> returns the zero-valued
  \<^verbatim>\<open>Variable\<close> and a \<^verbatim>\<open>nil\<close> error on each of the four tags, whereas the Integer
  path reports the same failure. The value region lies within the buffer, so the
  capacity of the buffer plays no part.
\<close>

theorem decodeValue_counter_failure_unreported:
  "parseInt64 [1, 2, 3, 4, 5, 6, 7, 8, 9] = Inl IntegerTooLarge
   \<and> (decodeValue [Counter64, 9, 1, 2, 3, 4, 5, 6, 7, 8, 9] spare
        :: ((64 word) Variable option \<times> error option) outcome)
       = Return (Some \<lparr> Type = 0, Value = VNil \<rparr>, None)
   \<and> (decodeValue [TimeTicks, 9, 1, 2, 3, 4, 5, 6, 7, 8, 9] spare
        :: ((64 word) Variable option \<times> error option) outcome)
       = Return (Some \<lparr> Type = 0, Value = VNil \<rparr>, None)
   \<and> (decodeValue [Counter32, 9, 1, 2, 3, 4, 5, 6, 7, 8, 9] spare
        :: ((64 word) Variable option \<times> error option) outcome)
       = Return (Some \<lparr> Type = 0, Value = VNil \<rparr>, None)
   \<and> (decodeValue [Gauge32, 9, 1, 2, 3, 4, 5, 6, 7, 8, 9] spare
        :: ((64 word) Variable option \<times> error option) outcome)
       = Return (Some \<lparr> Type = 0, Value = VNil \<rparr>, None)
   \<and> (decodeValue [Integer, 9, 1, 2, 3, 4, 5, 6, 7, 8, 9] spare
        :: ((64 word) Variable option \<times> error option) outcome)
       = Return (Some \<lparr> Type = 0, Value = VNil \<rparr>,
                 Some (DecodeBytesErr [Integer, 9, 1, 2, 3, 4, 5, 6, 7, 8, 9] IntegerTooLarge))"
proof -
  have p64: "parseInt64 [1, 2, 3, 4, 5, 6, 7, 8, 9] = Inl IntegerTooLarge" by code_simp
  have pi: "(parseInt [1, 2, 3, 4, 5, 6, 7, 8, 9] :: error + 64 word) = Inl IntegerTooLarge"
    by code_simp
  have pu: "(parseUint [1, 2, 3, 4, 5, 6, 7, 8, 9] :: error + 64 word) = Inl IntegerTooLarge"
    by code_simp
  have pl: "(parseLength (t # [9, 1, 2, 3, 4, 5, 6, 7, 8, 9]) :: (64 word \<times> 64 word) outcome)
            = Return (11, 2)" for t :: byte
    by (simp add: parseLength_def)
  have sl: "slice (t # [9, 1, 2, 3, 4, 5, 6, 7, 8, 9]) spare (2 :: 64 word) 11
            = Return [1, 2, 3, 4, 5, 6, 7, 8, 9]" for t :: byte
    by (subst slice_within) simp_all
  have nv: "(new_Variable :: (64 word) Variable) = \<lparr> Type = 0, Value = VNil \<rparr>"
    by (simp add: new_Variable_def)
  have a: "(decodeValue [Counter64, 9, 1, 2, 3, 4, 5, 6, 7, 8, 9] spare
        :: ((64 word) Variable option \<times> error option) outcome)
       = Return (Some \<lparr> Type = 0, Value = VNil \<rparr>, None)"
    unfolding decodeValue_Counter64 pl by (simp add: sl p64 nv)
  have b: "(decodeValue [TimeTicks, 9, 1, 2, 3, 4, 5, 6, 7, 8, 9] spare
        :: ((64 word) Variable option \<times> error option) outcome)
       = Return (Some \<lparr> Type = 0, Value = VNil \<rparr>, None)"
    unfolding decodeValue_TimeTicks pl by (simp add: sl pi nv)
  have c: "(decodeValue [Counter32, 9, 1, 2, 3, 4, 5, 6, 7, 8, 9] spare
        :: ((64 word) Variable option \<times> error option) outcome)
       = Return (Some \<lparr> Type = 0, Value = VNil \<rparr>, None)"
    unfolding decodeValue_Counter32 pl by (simp add: sl pu nv)
  have d: "(decodeValue [Gauge32, 9, 1, 2, 3, 4, 5, 6, 7, 8, 9] spare
        :: ((64 word) Variable option \<times> error option) outcome)
       = Return (Some \<lparr> Type = 0, Value = VNil \<rparr>, None)"
    unfolding decodeValue_Gauge32 pl by (simp add: sl pu nv)
  have e: "(decodeValue [Integer, 9, 1, 2, 3, 4, 5, 6, 7, 8, 9] spare
        :: ((64 word) Variable option \<times> error option) outcome)
       = Return (Some \<lparr> Type = 0, Value = VNil \<rparr>,
                 Some (DecodeBytesErr [Integer, 9, 1, 2, 3, 4, 5, 6, 7, 8, 9] IntegerTooLarge))"
    unfolding decodeValue_Integer pl by (simp add: sl pi nv)
  from p64 a b c d e show ?thesis by (intro conjI)
qed

text \<open>
  More generally, whatever follows one of the four tags, \<^verbatim>\<open>decodeValue\<close> never returns
  an error on these paths: it panics, or returns a \<^verbatim>\<open>Variable\<close> and \<^verbatim>\<open>nil\<close>.
\<close>

lemma counter_paths_never_report:
  fixes rest :: "byte list"
  assumes "tag \<in> {Counter32, Gauge32, TimeTicks, Counter64}"
    and "(decodeValue (tag # rest) spare :: ((('w::len) word) Variable option \<times> error option) outcome)
         = Return (v, e)"
  shows "e = None \<and> v \<noteq> None"
proof -
  consider "tag = Counter32" | "tag = Gauge32" | "tag = TimeTicks" | "tag = Counter64"
    using assms(1) by blast
  then show ?thesis
  proof cases
    case 1
    with assms(2) show ?thesis unfolding 1 decodeValue_Counter32
      by (auto split: outcome.splits sum.splits prod.splits)
  next
    case 2
    with assms(2) show ?thesis unfolding 2 decodeValue_Gauge32
      by (auto split: outcome.splits sum.splits prod.splits)
  next
    case 3
    with assms(2) show ?thesis unfolding 3 decodeValue_TimeTicks
      by (auto split: outcome.splits sum.splits prod.splits)
  next
    case 4
    with assms(2) show ?thesis unfolding 4 decodeValue_Counter64
      by (auto split: outcome.splits sum.splits prod.splits)
  qed
qed

section \<open>Properties of the length codec\<close>

lemma parseLength_loop_enough:
  assumes "i \<le> k" "2 + k \<le> length bytes"
  shows "parseLength_loop bytes k i (of_nat a :: 'w::len word)
         = Return (of_nat (be_nat (take (k - i) (drop (2 + i) bytes)) a))"
  using assms
proof (induction "k - i" arbitrary: i a)
  case 0
  then show ?case by (subst parseLength_loop.simps) simp
next
  case (Suc d)
  then have i: "i < k" "2 + i < length bytes" by simp_all
  have d: "d = k - (i + 1)" "i + 1 \<le> k" using Suc by simp_all
  have step: "push_bit 8 (of_nat a :: 'w word) + ucast (bytes ! (2 + i)) = of_nat (a * 256 + unat (bytes ! (2 + i)))"
    by (simp add: push_bit_eq_mult)
  have split: "take (k - i) (drop (2 + i) bytes)
               = bytes ! (2 + i) # take (k - (i + 1)) (drop (2 + (i + 1)) bytes)"
    using i Suc(2) by (metis Cons_nth_drop_Suc Suc_eq_plus1 add_Suc_right take_Suc_Cons d(1))
  show ?case
    using i Suc(1) [OF d(1) d(2) Suc(4), of "a * 256 + unat (bytes ! (2 + i))"]
    by (subst parseLength_loop.simps) (simp only: step split be_nat.simps if_True)
qed

lemma parseLength_loop_short:
  assumes "i < k" "length bytes < 2 + k" "2 + i \<le> length bytes"
  shows "parseLength_loop bytes k i (len :: 'w::len word) = Panic"
  using assms
proof (induction "length bytes - (2 + i)" arbitrary: i len)
  case 0
  then show ?case by (subst parseLength_loop.simps) simp
next
  case (Suc d)
  then have "2 + i < length bytes" "i + 1 < k" "d = length bytes - (2 + (i + 1))" "2 + (i + 1) \<le> length bytes"
    by simp_all
  with Suc show ?case
    by (subst parseLength_loop.simps) simp
qed

lemma sint_small_add:
  assumes "int a + int b < 2 ^ (LENGTH('w::len) - 1)"
  shows "sint (of_nat a + of_nat b :: 'w word) = int a + int b"
  using sint_of_nat_small [of "a + b", where 'w = 'w] assms by simp

lemma parseLength_long:
  assumes "2 < length bytes" "127 < unat (bytes ! 1)"
  shows "(parseLength bytes :: ('w::len word \<times> 'w word) outcome) =
           (case parseLength_loop bytes (unat (bytes ! 1) AND 127) 0 0 of
              Panic \<Rightarrow> Panic
            | Return len \<Rightarrow>
                Return (len + of_nat (2 + (unat (bytes ! 1) AND 127)),
                        0 + of_nat (2 + (unat (bytes ! 1) AND 127))))"
proof -
  have a: "\<not> length bytes \<le> 2" and b: "\<not> unat (bytes ! 1) \<le> 127" using assms by simp_all
  show ?thesis unfolding parseLength_def Let_def if_not_P [OF a] if_not_P [OF b] by (rule refl)
qed

text \<open>
  Claim C10, as the code has it. Whenever \<^verbatim>\<open>parseLength\<close> returns (it panics when the
  buffer ends inside the announced length octets) and, in the long form, the value of
  the length octets plus the header size \<open>2 + k\<close> does not exceed the largest
  \<^verbatim>\<open>int\<close>, the pair \<^verbatim>\<open>(length, cursor)\<close> satisfies \<open>1 \<le> cursor \<le> length\<close>, and the
  slice \<^verbatim>\<open>bytes[cursor:length]\<close> is taken without a panic whenever
  \<open>length \<le> len(bytes)\<close>, whatever the capacity of \<^verbatim>\<open>bytes\<close>.
\<close>

theorem parseLength_cursor_le_length:
  fixes bytes spare :: "byte list" and len cursor :: "'w::len word"
  assumes w: "8 < LENGTH('w)"
    and ret: "parseLength bytes = Return (len, cursor)"
    and fits: "2 < length bytes \<and> 127 < unat (bytes ! 1) \<longrightarrow>
               int (be_nat (long_form_octets bytes) 0) + 2 + int (length (long_form_octets bytes))
                 < 2 ^ (LENGTH('w) - 1)"
  shows "1 \<le> sint cursor \<and> sint cursor \<le> sint len
         \<and> (sint len \<le> int (length bytes) \<longrightarrow>
              slice bytes spare cursor len
              = Return (take (nat (sint len) - nat (sint cursor)) (drop (nat (sint cursor)) bytes)))"
proof -
  have P: "(256::int) \<le> 2 ^ (LENGTH('w) - 1)" by (rule int_256_le_pow [OF w])
  have main: "1 \<le> sint cursor \<and> sint cursor \<le> sint len"
  proof (cases "length bytes \<le> 2")
    case True
    then have "len = 2" "cursor = 1" using ret by (simp_all add: parseLength_def)
    moreover have "sint (of_nat 1 :: 'w word) = int 1" using P by (intro sint_of_nat_small) simp
    then have "sint (1 :: 'w word) = 1" by simp
    moreover have "sint (2 :: 'w word) = 2" using P by (intro sint_numeral_small) linarith
    ultimately show ?thesis by simp
  next
    case long: False
    show ?thesis
    proof (cases "unat (bytes ! 1) \<le> 127")
      case True
      with long have lc: "len = ucast (bytes ! 1) + 2" "cursor = 2"
        using ret by (simp_all add: parseLength_def)
      have "len = of_nat (unat (bytes ! 1)) + of_nat 2" by (simp add: lc)
      moreover have "int (unat (bytes ! 1)) + int 2 < 2 ^ (LENGTH('w) - 1)"
        using True P by linarith
      ultimately have "sint len = int (unat (bytes ! 1)) + int 2"
        by (simp only: sint_small_add)
      moreover have "sint (2 :: 'w word) = 2" using P by (intro sint_numeral_small) linarith
      ultimately show ?thesis by (simp add: lc(2))
    next
      case False
      define k where "k = unat (bytes ! 1) AND 127"
      have lf: "2 < length bytes" "127 < unat (bytes ! 1)" using long False by simp_all
      note unfold = parseLength_long [OF lf, where 'w = 'w, folded k_def]
      have enough: "2 + k \<le> length bytes"
      proof (rule ccontr)
        assume "\<not> 2 + k \<le> length bytes"
        with long have "0 < k" "length bytes < 2 + k" "2 + 0 \<le> length bytes" by simp_all
        then have "parseLength_loop bytes k 0 (0 :: 'w word) = Panic"
          by (rule parseLength_loop_short)
        with ret show False unfolding unfold by simp
      qed
      define L where "L = be_nat (take k (drop 2 bytes)) 0"
      have "parseLength_loop bytes k 0 (of_nat 0 :: 'w word) = Return (of_nat L)"
        using parseLength_loop_enough [of 0 k bytes 0, where 'w = 'w] enough by (simp add: L_def)
      then have loop: "parseLength_loop bytes k 0 (0 :: 'w word) = Return (of_nat L)" by simp
      from ret have e: "(of_nat L + of_nat (2 + k), 0 + of_nat (2 + k)) = (len, cursor)"
        unfolding unfold loop by (simp only: outcome.case outcome.inject)
      have lc: "len = of_nat L + of_nat (2 + k)" "cursor = of_nat 0 + of_nat (2 + k)"
        using arg_cong [OF e, of fst] arg_cong [OF e, of snd]
        by (simp_all only: fst_conv snd_conv semiring_1_class.of_nat_0)
      have oct: "long_form_octets bytes = take k (drop 2 bytes)" by (simp add: long_form_octets_def k_def)
      have "length (take k (drop 2 bytes)) = k" using enough by simp
      with fits lf have f: "int L + int (2 + k) < 2 ^ (LENGTH('w) - 1)"
        by (simp add: oct L_def)
      then have "sint len = int L + int (2 + k)" unfolding lc by (rule sint_small_add)
      moreover have "int 0 + int (2 + k) < 2 ^ (LENGTH('w) - 1)" using f by linarith
      then have "sint cursor = int 0 + int (2 + k)" unfolding lc by (rule sint_small_add)
      ultimately show ?thesis by simp
    qed
  qed
  then have "sint len \<le> int (length bytes) \<Longrightarrow>
             slice bytes spare cursor len
             = Return (take (nat (sint len) - nat (sint cursor)) (drop (nat (sint cursor)) bytes))"
    by (intro slice_within) simp_all
  with main show ?thesis by simp
qed

text \<open>
  The theorem with a 32-bit \<^verbatim>\<open>int\<close>, on a long-form header (two length octets, value
  256) and on a short-form one whose value region is then sliced.
\<close>

theorem parseLength_cursor_le_length_witness:
  "8 < LENGTH(32)
   \<and> (parseLength [0x04, 0x82, 0x01, 0x00, 0x41] :: (32 word \<times> 32 word) outcome) = Return (260, 4)
   \<and> int (be_nat (long_form_octets [0x04, 0x82, 0x01, 0x00, 0x41]) 0) + 2
        + int (length (long_form_octets [0x04, 0x82, 0x01, 0x00, 0x41])) < 2 ^ (LENGTH(32) - 1)
   \<and> (1::int) \<le> sint (4 :: 32 word) \<and> sint (4 :: 32 word) \<le> sint (260 :: 32 word)
   \<and> (parseLength [0x04, 0x03, 0x41, 0x42, 0x43] :: (32 word \<times> 32 word) outcome) = Return (5, 2)
   \<and> slice [0x04, 0x03, 0x41, 0x42, 0x43 :: byte] [0x00, 0x00] (2 :: 32 word) 5 = Return [0x41, 0x42, 0x43]"
proof -
  have a: "(parseLength [0x04, 0x82, 0x01, 0x00, 0x41] :: (32 word \<times> 32 word) outcome) = Return (260, 4)"
    by code_simp
  have b: "(parseLength [0x04, 0x03, 0x41, 0x42, 0x43] :: (32 word \<times> 32 word) outcome) = Return (5, 2)"
    by code_simp
  have w: "8 < LENGTH(32)" by simp
  have fa: "2 < length [0x04, 0x82, 0x01, 0x00, 0x41 :: byte] \<and> 127 < unat ([0x04, 0x82, 0x01, 0x00, 0x41 :: byte] ! 1) \<longrightarrow>
         int (be_nat (long_form_octets [0x04, 0x82, 0x01, 0x00, 0x41]) 0) + 2
        + int (length (long_form_octets [0x04, 0x82, 0x01, 0x00, 0x41])) < 2 ^ (LENGTH(32) - 1)"
    by (simp add: long_form_octets_def)
  have fb: "2 < length [0x04, 0x03, 0x41, 0x42, 0x43 :: byte] \<and> 127 < unat ([0x04, 0x03, 0x41, 0x42, 0x43 :: byte] ! 1) \<longrightarrow>
         int (be_nat (long_form_octets [0x04, 0x03, 0x41, 0x42, 0x43]) 0) + 2
        + int (length (long_form_octets [0x04, 0x03, 0x41, 0x42, 0x43])) < 2 ^ (LENGTH(32) - 1)"
    by simp
  show ?thesis
    using parseLength_cursor_le_length [OF w a fa, where spare = "[]"]
      parseLength_cursor_le_length [OF w b fb, where spare = "[0x00, 0x00]"] a b
    by (simp add: long_form_octets_def)
qed

text \<open>
  Claim C10 as stated, for every input buffer, fails in two ways. The accumulation
  \<^verbatim>\<open>length <<= 8; length += ...\<close> overflows \<^verbatim>\<open>int\<close>: four length octets
  \<^verbatim>\<open>7f ff ff ff\<close> on a 32-bit target, eight on a 64-bit one, give a negative
  \<^verbatim>\<open>length\<close> below \<^verbatim>\<open>cursor\<close>. And a buffer that ends inside the announced length
  octets makes the function panic instead of returning a pair.
\<close>

theorem parseLength_cursor_le_length_counterexample:
  "(parseLength [0x04, 0x84, 0x7F, 0xFF, 0xFF, 0xFF] :: (32 word \<times> 32 word) outcome)
     = Return (0x80000005, 6)
   \<and> sint (0x80000005 :: 32 word) < sint (6 :: 32 word)
   \<and> (parseLength [0x04, 0x88, 0x7F, 0xFF, 0xFF, 0xFF, 0xFF, 0xFF, 0xFF, 0xFF]
        :: (64 word \<times> 64 word) outcome) = Return (0x8000000000000009, 10)
   \<and> sint (0x8000000000000009 :: 64 word) < sint (10 :: 64 word)
   \<and> (parseLength [0x04, 0x82, 0x01] :: (32 word \<times> 32 word) outcome) = Panic
   \<and> (parseLength [0x04, 0x82, 0x01] :: (64 word \<times> 64 word) outcome) = Panic"
  by code_simp

text \<open>
  Claim C4 asks for the minimal big-endian length octets in the long form. The code
  writes the length little-endian and cuts it at its first zero byte: 258 becomes
  \<^verbatim>\<open>82 02 01\<close> and not \<^verbatim>\<open>82 01 02\<close>, 256 and 65536 become \<^verbatim>\<open>80\<close> with no length
  octet at all. The short form, 127, 200 and the negative case are as the claim says.
\<close>

theorem marshalLength_little_endian:
  "marshalLength (258 :: 64 word) = Inr [0x82, 0x02, 0x01]
   \<and> marshalLength (256 :: 64 word) = Inr [0x80]
   \<and> marshalLength (65536 :: 64 word) = Inr [0x80]
   \<and> marshalLength (258 :: 32 word) = Inr [0x82, 0x02, 0x01]
   \<and> marshalLength (256 :: 32 word) = Inr [0x80]
   \<and> marshalLength (200 :: 64 word) = Inr [0x81, 0xC8]
   \<and> marshalLength (126 :: 64 word) = Inr [0x7E]
   \<and> marshalLength (127 :: 64 word) = Inr [0x81, 0x7F]
   \<and> marshalLength (- 1 :: 64 word) = Inl InvalidLength"
  by code_simp

lemma unat_of_nat_small:
  assumes "8 < LENGTH('w::len)" "m < 256"
  shows "unat (of_nat m :: 'w word) = m"
proof -
  have "(2::nat) ^ 8 \<le> 2 ^ LENGTH('w)" using assms(1) by (intro power_increasing) simp_all
  with assms(2) have "m < 2 ^ LENGTH('w)" by simp
  then show ?thesis by (simp add: unat_of_nat)
qed

lemma small_int_word:
  fixes n :: "'w::len word"
  assumes w: "8 < LENGTH('w)" and n: "0 \<le> sint n" "sint n \<le> 255"
  shows "n = of_nat (nat (sint n))"
    and "(ucast n :: byte) = of_nat (nat (sint n))"
    and "(scast n :: 64 word) = of_nat (nat (sint n))"
    and "unat (of_nat (nat (sint n)) :: byte) = nat (sint n)"
    and "(ucast (of_nat (nat (sint n)) :: byte) :: 'w word) = n"
proof -
  define m where "m = nat (sint n)"
  have m: "int m = sint n" "m < 256" using n by (simp_all add: m_def)
  have "word_of_int (int m) = n" unfolding m(1) by simp
  then show a: "n = of_nat (nat (sint n))" unfolding m_def [symmetric] by simp
  have "unat (of_nat m :: 'w word) = m" using w m(2) by (rule unat_of_nat_small)
  then have "ucast (of_nat m :: 'w word) = (of_nat m :: byte)" by (metis of_nat_unat)
  then show "(ucast n :: byte) = of_nat (nat (sint n))"
    unfolding m_def [symmetric] using a [unfolded m_def [symmetric]] by simp
  have "(scast n :: 64 word) = word_of_int (int m)" unfolding m(1) by (rule scast_eq)
  then show "(scast n :: 64 word) = of_nat (nat (sint n))" unfolding m_def [symmetric] by simp
  show c: "unat (of_nat (nat (sint n)) :: byte) = nat (sint n)"
    unfolding m_def [symmetric] using m(2) by (simp add: unat_of_nat)
  have "(ucast (of_nat m :: byte) :: 'w word) = of_nat (unat (of_nat m :: byte))"
    by (metis of_nat_unat)
  then show "(ucast (of_nat (nat (sint n)) :: byte) :: 'w word) = n"
    unfolding m_def [symmetric] using c [unfolded m_def [symmetric]] a [unfolded m_def [symmetric]]
    by simp
qed

lemma le_bytes_small:
  assumes "m < 256"
  shows "binary_Write_LittleEndian_uint64 (of_nat m) = [of_nat m, 0, 0, 0, 0, 0, 0, 0]"
proof -
  have upt: "[0..<8] = [0, 1, 2, 3, 4, 5, 6, Suc 6]" by (simp add: upt_rec)
  have um: "unat (of_nat m :: uint64) = m" using assms by (simp add: unat_of_nat)
  have z: "drop_bit (8 * i) (of_nat m :: uint64) = 0" if "1 \<le> i" for i
  proof -
    have "(2::nat) ^ 8 \<le> 2 ^ (8 * i)" using that by (intro power_increasing) simp_all
    with assms have "m < 2 ^ (8 * i)" by simp
    then have "drop_bit (8 * i) m = 0" by (simp add: drop_bit_eq_div)
    then have "unat (drop_bit (8 * i) (of_nat m :: uint64)) = 0"
      by (simp only: unat_drop_bit_eq um)
    then show ?thesis by (simp only: unat_eq_0)
  qed
  have u: "(ucast (of_nat m :: uint64) :: byte) = of_nat m" using um by (metis of_nat_unat)
  have z': "drop_bit 8 (of_nat m :: uint64) = 0" "drop_bit 16 (of_nat m :: uint64) = 0"
    "drop_bit 24 (of_nat m :: uint64) = 0" "drop_bit 32 (of_nat m :: uint64) = 0"
    "drop_bit 40 (of_nat m :: uint64) = 0" "drop_bit 48 (of_nat m :: uint64) = 0"
    "drop_bit 56 (of_nat m :: uint64) = 0"
    using z [of 1] z [of 2] z [of 3] z [of 4] z [of 5] z [of 6] z [of 7] by simp_all
  show ?thesis unfolding binary_Write_LittleEndian_uint64_def upt
    by (simp add: z' u)
qed

lemma marshalLength_short:
  fixes n :: "'w::len word"
  assumes w: "8 < LENGTH('w)" and n: "0 \<le> sint n" "sint n < 127"
  shows "marshalLength n = Inr [ucast n]"
proof -
  have s127: "sint (127 :: 'w word) = 127"
    using int_256_le_pow [OF w] by (intro sint_numeral_small) linarith
  have g: "\<not> n <s 0" "n <s 127" using n unfolding word_sless_alt s127 by simp_all
  show ?thesis unfolding marshalLength_def if_not_P [OF g(1)] if_P [OF g(2)] by (rule refl)
qed

lemma marshalLength_one_octet:
  fixes n :: "'w::len word"
  assumes w: "8 < LENGTH('w)" and n: "127 \<le> sint n" "sint n \<le> 255"
  shows "marshalLength n = Inr [0x81, ucast n]"
proof -
  define m where "m = nat (sint n)"
  have m: "127 \<le> m" "m < 256" using n by (simp_all add: m_def)
  have n0: "0 \<le> sint n" using n by simp
  note sw = small_int_word [OF w n0 n(2), folded m_def]
  have s127: "sint (127 :: 'w word) = 127"
    using int_256_le_pow [OF w] by (intro sint_numeral_small) linarith
  have g: "\<not> n <s 0" "\<not> n <s 127" using n unfolding word_sless_alt s127 by simp_all
  have nz: "(of_nat m :: byte) \<noteq> 0" using sw(4) m by (metis not_numeral_le_zero unat_0)
  have rb: "ReadBytes 0 [of_nat m, 0, 0, 0, 0, 0, 0, 0 :: byte] = ([of_nat m, 0], True)"
    using nz by simp
  show ?thesis
    unfolding marshalLength_def if_not_P [OF g(1)] if_not_P [OF g(2)] sw(3) le_bytes_small [OF m(2)]
      Let_def rb sw(2)
    by simp
qed

lemma int_pow31_le:
  assumes "32 \<le> LENGTH('w::len)"
  shows "(2147483648::int) \<le> 2 ^ (LENGTH('w) - 1)"
proof -
  have "(2::int) ^ 31 \<le> 2 ^ (LENGTH('w) - 1)" using assms by (intro pow_mono_int) simp
  then show ?thesis by simp
qed

lemma parseLength_of_short:
  assumes "m < 127" "0 < length payload"
  shows "(parseLength (t # [of_nat m] @ payload) :: ('w::len word \<times> 'w word) outcome)
         = Return (ucast (of_nat m :: byte) + 2, 2)"
proof -
  have "unat (of_nat m :: byte) = m" using assms(1) by (simp add: unat_of_nat)
  then show ?thesis using assms by (simp add: parseLength_def)
qed

lemma parseLength_of_long:
  "(parseLength (t # [0x81, b] @ payload) :: ('w::len word \<times> 'w word) outcome)
   = Return (of_nat (unat b) + of_nat 3, of_nat 0 + of_nat 3)"
proof -
  let ?bytes = "t # [0x81, b] @ payload"
  have k: "unat (?bytes ! 1) AND 127 = 1" by simp
  have "parseLength_loop ?bytes 1 0 (of_nat 0 :: 'w word)
        = Return (of_nat (be_nat (take (1 - 0) (drop (2 + 0) ?bytes)) 0))"
    by (rule parseLength_loop_enough) simp_all
  then have loop: "parseLength_loop ?bytes 1 0 (0 :: 'w word) = Return (of_nat (unat b))" by simp
  have "(parseLength ?bytes :: ('w word \<times> 'w word) outcome) =
           (case parseLength_loop ?bytes (unat (?bytes ! 1) AND 127) 0 0 of
              Panic \<Rightarrow> Panic
            | Return len \<Rightarrow>
                Return (len + of_nat (2 + (unat (?bytes ! 1) AND 127)),
                        0 + of_nat (2 + (unat (?bytes ! 1) AND 127))))"
    by (rule parseLength_long) simp_all
  then show ?thesis unfolding k loop by simp
qed

text \<open>
  Claim C1, as the code has it by design. For every length \<open>n\<close> from 1 to 255, every
  tag byte \<open>t\<close> and every payload of \<open>n\<close> bytes (the \<open>n\<close> zero bytes of the claim
  among them), \<^verbatim>\<open>marshalLength\<close> gives the header \<open>hdr\<close> (one byte below 127, \<^verbatim>\<open>81\<close>
  and one byte from 127 on), and \<^verbatim>\<open>parseLength\<close> on \<^verbatim>\<open>t\<close>, \<open>hdr\<close>, payload returns a
  cursor at the first payload byte and a length that exceeds it by \<open>n\<close>, so that the
  slice between them is the payload, whatever capacity the buffer has behind it.
  \<^verbatim>\<open>int\<close> is assumed to have at least 32 bits.
\<close>

theorem length_round_trip:
  fixes n :: "'w::len word" and t :: byte and payload spare :: "byte list"
  assumes w: "32 \<le> LENGTH('w)" and n: "1 \<le> sint n" "sint n \<le> 255"
    and p: "int (length payload) = sint n"
  shows "\<exists>hdr (len :: 'w word) (cursor :: 'w word).
           marshalLength n = Inr hdr
         \<and> hdr = (if sint n < 127 then [ucast n] else [0x81, ucast n])
         \<and> parseLength (t # hdr @ payload) = Return (len, cursor)
         \<and> sint cursor = 1 + int (length hdr)
         \<and> sint len - sint cursor = sint n
         \<and> slice (t # hdr @ payload) spare cursor len = Return payload"
proof -
  define m where "m = nat (sint n)"
  have w8: "8 < LENGTH('w)" using w by simp
  have P: "(2147483648::int) \<le> 2 ^ (LENGTH('w) - 1)" by (rule int_pow31_le [OF w])
  have m: "1 \<le> m" "m < 256" "int m = sint n" "length payload = m" using n p by (simp_all add: m_def)
  have n0: "0 \<le> sint n" using n by simp
  note sw = small_int_word [OF w8 n0 n(2), folded m_def]
  show ?thesis
  proof (cases "sint n < 127")
    case True
    define hdr :: "byte list" where "hdr = [ucast n]"
    define len :: "'w word" where "len = of_nat m + of_nat 2"
    define cursor :: "'w word" where "cursor = of_nat 0 + of_nat 2"
    have m127: "m < 127" using True m(3) by simp
    have A: "marshalLength n = Inr hdr"
      unfolding hdr_def using w8 n0 True by (rule marshalLength_short)
    have B: "hdr = (if sint n < 127 then [ucast n] else [0x81, ucast n])"
      using True by (simp add: hdr_def)
    have "(parseLength (t # [of_nat m] @ payload) :: ('w word \<times> 'w word) outcome)
         = Return (ucast (of_nat m :: byte) + 2, 2)"
      using m127 m by (intro parseLength_of_short) simp_all
    then have C: "parseLength (t # hdr @ payload) = Return (len, cursor)"
      unfolding hdr_def sw(2) sw(5) len_def cursor_def using sw(1) by simp
    have s1: "sint len = int m + int 2"
      unfolding len_def using m(2) P by (intro sint_small_add) linarith
    have s2: "sint cursor = int 0 + int 2"
      unfolding cursor_def using P by (intro sint_small_add) linarith
    have D: "sint cursor = 1 + int (length hdr)" by (simp add: s2 hdr_def)
    have E: "sint len - sint cursor = sint n" by (simp add: s1 s2 m(3))
    have F: "slice (t # hdr @ payload) spare cursor len = Return payload"
      unfolding slice_def s1 s2 using m(4) by (simp add: hdr_def)
    from A B C D E F show ?thesis by blast
  next
    case False
    define hdr :: "byte list" where "hdr = [0x81, ucast n]"
    define len :: "'w word" where "len = of_nat m + of_nat 3"
    define cursor :: "'w word" where "cursor = of_nat 0 + of_nat 3"
    from False have ge: "127 \<le> sint n" by simp
    have A: "marshalLength n = Inr hdr"
      unfolding hdr_def using w8 ge n(2) by (rule marshalLength_one_octet)
    have B: "hdr = (if sint n < 127 then [ucast n] else [0x81, ucast n])"
      using False by (simp add: hdr_def)
    have "(parseLength (t # [0x81, of_nat m] @ payload) :: ('w word \<times> 'w word) outcome)
           = Return (of_nat (unat (of_nat m :: byte)) + of_nat 3, of_nat 0 + of_nat 3)"
      by (rule parseLength_of_long)
    then have C: "parseLength (t # hdr @ payload) = Return (len, cursor)"
      unfolding hdr_def sw(2) sw(4) len_def cursor_def .
    have s1: "sint len = int m + int 3"
      unfolding len_def using m(2) P by (intro sint_small_add) linarith
    have s2: "sint cursor = int 0 + int 3"
      unfolding cursor_def using P by (intro sint_small_add) linarith
    have D: "sint cursor = 1 + int (length hdr)" by (simp add: s2 hdr_def)
    have E: "sint len - sint cursor = sint n" by (simp add: s1 s2 m(3))
    have F: "slice (t # hdr @ payload) spare cursor len = Return payload"
      unfolding slice_def s1 s2 using m(4) by (simp add: hdr_def)
    from A B C D E F show ?thesis by blast
  qed
qed

text \<open>The theorem at \<open>n = 200\<close> with a 32-bit \<^verbatim>\<open>int\<close>: header \<^verbatim>\<open>81 c8\<close>, cursor 3.\<close>

theorem length_round_trip_witness:
  "32 \<le> LENGTH(32) \<and> (1::int) \<le> sint (200 :: 32 word) \<and> sint (200 :: 32 word) \<le> 255
   \<and> int (length (replicate 200 (0 :: byte))) = sint (200 :: 32 word)
   \<and> (\<exists>hdr (len :: 32 word) (cursor :: 32 word).
           marshalLength (200 :: 32 word) = Inr hdr
         \<and> hdr = [0x81, 0xC8]
         \<and> parseLength (0x04 # hdr @ replicate 200 0) = Return (len, cursor)
         \<and> sint cursor = 3
         \<and> sint len - sint cursor = 200
         \<and> slice (0x04 # hdr @ replicate 200 0) [] cursor len = Return (replicate 200 0))"
proof -
  have h: "32 \<le> LENGTH(32)" "(1::int) \<le> sint (200 :: 32 word)" "sint (200 :: 32 word) \<le> 255"
    "int (length (replicate 200 (0 :: byte))) = sint (200 :: 32 word)" by simp_all
  from length_round_trip [OF h, of "0x04" "[]"] h show ?thesis
    by simp
qed

text \<open>
  Claim C1 as stated, for every \<open>n \<ge> 0\<close>, fails at \<open>n = 0\<close>: the buffer has at most
  two bytes, and \<^verbatim>\<open>parseLength\<close> answers with its rule for null octet strings,
  \<^verbatim>\<open>length = 2\<close> and \<^verbatim>\<open>cursor = 1\<close>. With the tag byte in front the cursor is on the
  length byte, not on the (empty) payload at offset 2; with the buffer read literally
  as the header followed by the payload, the length exceeds the one header byte by 1
  instead of 0, and at \<open>n = 5\<close> that reading takes the first payload byte for the
  length byte and returns \<^verbatim>\<open>length = 2\<close>.
\<close>

theorem length_round_trip_counterexample:
  "marshalLength (0 :: 32 word) = Inr [0x00]
   \<and> (parseLength (0x04 # [0x00] @ replicate 0 0) :: (32 word \<times> 32 word) outcome) = Return (2, 1)
   \<and> (parseLength ([0x00] @ replicate 0 0) :: (32 word \<times> 32 word) outcome) = Return (2, 1)
   \<and> marshalLength (5 :: 32 word) = Inr [0x05]
   \<and> (parseLength ([0x05] @ replicate 5 0) :: (32 word \<times> 32 word) outcome) = Return (2, 2)
   \<and> marshalLength (0 :: 64 word) = Inr [0x00]
   \<and> (parseLength (0x04 # [0x00] @ replicate 0 0) :: (64 word \<times> 64 word) outcome) = Return (2, 1)"
  by code_simp

section \<open>Properties of the base-128 varint codec\<close>

lemma spec_groups_nonempty: "spec_groups m \<noteq> []"
  by (subst spec_groups.simps) simp

lemma spec_groups_small: "g \<in> set (spec_groups m) \<Longrightarrow> g < 128"
proof (induction m arbitrary: g rule: spec_groups.induct)
  case (1 n)
  show ?case
  proof (cases "n < 128")
    case True
    with "1.prems" show ?thesis by (subst (asm) spec_groups.simps) simp
  next
    case False
    with "1.prems" have "g \<in> set (spec_groups (n div 128)) \<or> g = n mod 128"
      by (subst (asm) spec_groups.simps) auto
    with "1.IH" [OF False] show ?thesis by auto
  qed
qed

lemma spec_groups_value:
  "foldl (\<lambda>a g. a * 128 + g) a (spec_groups m) = a * 128 ^ length (spec_groups m) + m"
proof (induction m arbitrary: a rule: spec_groups.induct)
  case (1 n)
  show ?case
  proof (cases "n < 128")
    case True
    then show ?thesis by (subst (1 2) spec_groups.simps) simp
  next
    case False
    have sg: "spec_groups n = spec_groups (n div 128) @ [n mod 128]"
      using False by (subst spec_groups.simps) simp
    show ?thesis unfolding sg using "1.IH" [OF False, of a]
      by (simp add: algebra_simps)
  qed
qed

lemma spec_groups_length: "m < 128 ^ k \<Longrightarrow> 0 < k \<Longrightarrow> length (spec_groups m) \<le> k"
proof (induction m arbitrary: k rule: spec_groups.induct)
  case (1 n)
  show ?case
  proof (cases "n < 128")
    case True
    with "1.prems" show ?thesis by (subst spec_groups.simps) simp
  next
    case False
    have sg: "spec_groups n = spec_groups (n div 128) @ [n mod 128]"
      using False by (subst spec_groups.simps) simp
    from False "1.prems" have k: "1 < k" by (cases "k = 1") auto
    then obtain k' where k': "k = Suc k'" "0 < k'" by (cases k) auto
    from "1.prems"(1) have "n div 128 < 128 ^ k'" unfolding k'(1)
      by (simp add: less_mult_imp_div_less)
    from "1.IH" [OF False this k'(2)] show ?thesis unfolding sg k'(1) by simp
  qed
qed

lemma spec_groups_index:
  "spec_groups m = map (\<lambda>i. (m div 128 ^ i) mod 128) (rev [0..<length (spec_groups m)])"
proof (induction m rule: spec_groups.induct)
  case (1 n)
  show ?case
  proof (cases "n < 128")
    case True
    then show ?thesis by (subst (1 2) spec_groups.simps) simp
  next
    case False
    have sg: "spec_groups n = spec_groups (n div 128) @ [n mod 128]"
      using False by (subst spec_groups.simps) simp
    define K where "K = length (spec_groups (n div 128))"
    have up: "[0..<Suc K] = 0 # map Suc [0..<K]" by (simp add: upt_conv_Cons map_Suc_upt del: upt_Suc)
    have "map (\<lambda>i. (n div 128 ^ i) mod 128) (rev [0..<Suc K])
          = map (\<lambda>i. (n div 128 div 128 ^ i) mod 128) (rev [0..<K]) @ [n mod 128]"
      unfolding up by (simp add: rev_map div_mult2_eq del: upt_Suc)
    with "1.IH" [OF False] show ?thesis unfolding sg K_def by simp
  qed
qed

lemma int64_of_nat:
  assumes "m < 2 ^ 63"
  shows "sint (of_nat m :: int64) = int m" "unat (of_nat m :: int64) = m"
proof -
  have "int m < 2 ^ 63" using assms by (metis of_nat_less_iff of_nat_numeral of_nat_power)
  then show "sint (of_nat m :: int64) = int m" by (intro sint_of_nat_small) simp
  have "m < 2 ^ 64" using assms by simp
  then show "unat (of_nat m :: int64) = m" by (simp add: unat_of_nat)
qed

lemma signed_drop_bit_of_nat:
  assumes "m < 2 ^ 63"
  shows "signed_drop_bit k (of_nat m :: int64) = of_nat (m div 2 ^ k)"
proof -
  have "sint (signed_drop_bit k (of_nat m :: int64)) = int m div 2 ^ k"
    by (simp only: sint_signed_drop_bit_eq drop_bit_eq_div int64_of_nat(1) [OF assms])
  then have "word_of_int (sint (signed_drop_bit k (of_nat m :: int64))) = (word_of_int (int m div 2 ^ k) :: int64)"
    by simp
  moreover have "int m div 2 ^ k = int (m div 2 ^ k)" by (simp add: zdiv_int)
  ultimately show ?thesis by simp
qed

lemma base128_groups_count:
  assumes "0 < m" "m < 2 ^ 63"
  shows "base128_groups (of_nat m) l = l + length (spec_groups m)"
  using assms
proof (induction m arbitrary: l rule: spec_groups.induct)
  case (1 n)
  have pos: "0 <s (of_nat n :: int64)"
    using "1.prems" by (simp add: word_sless_alt int64_of_nat(1))
  have step: "base128_groups (of_nat n) l = base128_groups (of_nat (n div 128)) (l + 1)"
    using pos signed_drop_bit_of_nat [OF "1.prems"(2), of 7]
    by (subst base128_groups.simps) simp
  show ?case
  proof (cases "n < 128")
    case True
    then have "base128_groups (of_nat (n div 128)) (l + 1) = l + 1"
      by (subst base128_groups.simps) simp
    with True step show ?thesis by (subst spec_groups.simps) simp
  next
    case False
    then have "0 < n div 128" by (simp add: div_greater_zero_iff)
    moreover have "n div 128 < 2 ^ 63" using "1.prems"(2) by (simp add: less_mult_imp_div_less)
    ultimately have "base128_groups (of_nat (n div 128)) (l + 1) = l + 1 + length (spec_groups (n div 128))"
      by (rule "1.IH" [OF False])
    with False step show ?thesis by (subst spec_groups.simps) simp
  qed
qed

lemma base128_emit_list:
  "base128_emit n k out =
     out @ map (\<lambda>i. let o1 = (ucast (signed_drop_bit (i * 7) n) :: byte) AND 0x7f
                     in if i \<noteq> 0 then o1 OR 0x80 else o1) (rev [0..<k])"
  by (induction k arbitrary: out) (simp_all add: Let_def)

lemma word_eq_of_unat: "unat (x :: 'a::len word) = q \<Longrightarrow> x = of_nat q"
  by (metis of_nat_unat ucast_id)

lemma byte_and_7f: "(of_nat q :: byte) AND 0x7f = of_nat (q mod 128)"
proof -
  have "(of_nat q :: byte) AND 0x7f = take_bit 7 (of_nat q :: byte)"
    by (simp add: take_bit_eq_mask mask_eq_exp_minus_1)
  moreover have "unat (take_bit 7 (of_nat q :: byte)) = q mod 128"
  proof -
    have "unat (take_bit 7 (of_nat q :: byte)) = unat (of_nat q :: byte) mod 2 ^ 7"
      by (subst unsigned_take_bit_eq) (rule take_bit_eq_mod)
    also have "\<dots> = (q mod 256) mod 128" by (simp add: unat_of_nat)
    also have "\<dots> = q mod 128" by (simp add: mod_mod_cancel)
    finally show ?thesis .
  qed
  ultimately show ?thesis by (simp only: word_eq_of_unat)
qed

lemma byte_and_80:
  assumes "g < 128"
  shows "(of_nat g :: byte) AND 0x80 = 0" "(of_nat (g + 128) :: byte) AND 0x80 \<noteq> 0"
proof -
  have e: "(x :: byte) AND 0x80 = 0 \<longleftrightarrow> \<not> bit x 7" for x
    using and_exp_eq_0_iff_not_bit [of x 7] by simp
  have "\<not> bit g 7" using assms by (simp add: bit_iff_odd)
  then show "(of_nat g :: byte) AND 0x80 = 0"
    unfolding e by (simp only: bit_of_nat_iff) simp
  have "(g + 128) div 128 = 1" using assms by simp
  then have "bit (g + 128) 7" by (simp add: bit_iff_odd)
  then show "(of_nat (g + 128) :: byte) AND 0x80 \<noteq> 0"
    unfolding e by (simp only: bit_of_nat_iff) simp
qed

lemma byte_or_80:
  assumes "g < 128"
  shows "(of_nat g :: byte) OR 0x80 = of_nat (g + 128)"
proof -
  have "(of_nat g :: byte) + 128 = of_nat g OR 128"
    by (rule disjunctive_add_eq_or) (rule byte_and_80(1) [OF assms])
  then show ?thesis by simp
qed

lemma ucast_of_nat_byte:
  assumes "q < 2 ^ 64"
  shows "(ucast (of_nat q :: int64) :: byte) = of_nat q"
proof -
  have "unat (of_nat q :: int64) = q" using assms by (simp add: unat_of_nat)
  then show ?thesis by (metis of_nat_unat)
qed

lemma group_byte:
  assumes "m < 2 ^ 63"
  shows "(ucast (signed_drop_bit (i * 7) (of_nat m :: int64)) :: byte) AND 0x7f
         = of_nat ((m div 128 ^ i) mod 128)"
proof -
  have "(2::nat) ^ (i * 7) = (2 ^ 7) ^ i" by (simp only: mult.commute [of i 7] power_mult)
  then have p: "(2::nat) ^ (i * 7) = 128 ^ i" by simp
  have "m div 128 ^ i \<le> m" by simp
  moreover have "m < 2 ^ 64" using assms by simp
  ultimately have "m div 128 ^ i < 2 ^ 64" by (rule le_less_trans)
  then show ?thesis
    by (simp only: signed_drop_bit_of_nat [OF assms] p ucast_of_nat_byte byte_and_7f)
qed

lemma rev_upt_split: "0 < K \<Longrightarrow> rev [0..<K] = rev [1..<K] @ [0]"
  by (simp add: upt_conv_Cons [of 0 K] del: upt_Suc)

lemma spec_base128_index:
  "spec_base128 m =
     map (\<lambda>i. of_nat ((m div 128 ^ i) mod 128 + 128)) (rev [1..<length (spec_groups m)])
     @ [of_nat (m mod 128)]"
proof -
  define K where "K = length (spec_groups m)"
  have K: "0 < K" using spec_groups_nonempty [of m] by (simp add: K_def)
  have gs: "spec_groups m = map (\<lambda>i. (m div 128 ^ i) mod 128) (rev [1..<K]) @ [m mod 128]"
    using spec_groups_index [of m] unfolding K_def [symmetric] rev_upt_split [OF K] by simp
  show ?thesis
    unfolding spec_base128_def Let_def K_def [symmetric]
    by (subst (1 2) gs) (simp add: o_def)
qed

lemma marshalBase128Int_is_spec_varint:
  assumes "m < 2 ^ 63"
  shows "marshalBase128Int out (of_nat m) = out @ spec_base128 m"
proof (cases "m = 0")
  case True
  have "spec_base128 0 = [0]" unfolding spec_base128_def by (subst spec_groups.simps) simp
  with True show ?thesis by (simp add: marshalBase128Int_def)
next
  case False
  define K where "K = length (spec_groups m)"
  have K: "0 < K" using spec_groups_nonempty [of m] by (simp add: K_def)
  have nz: "(of_nat m :: int64) \<noteq> 0"
    using False int64_of_nat(2) [OF assms] by (metis unat_0)
  have cnt: "base128_groups (of_nat m) 0 = K"
    using base128_groups_count [of m 0] False assms by (simp add: K_def)
  have g0: "(ucast (of_nat m :: int64) :: byte) AND 0x7f = of_nat (m mod 128)"
    using group_byte [OF assms, of 0] by simp
  have gi: "(ucast (signed_drop_bit (i * 7) (of_nat m :: int64)) :: byte) AND 0x7f OR 0x80
            = of_nat ((m div 128 ^ i) mod 128 + 128)" for i
    unfolding group_byte [OF assms] by (rule byte_or_80) simp
  have "marshalBase128Int out (of_nat m)
        = out @ map (\<lambda>i. let o1 = (ucast (signed_drop_bit (i * 7) (of_nat m :: int64)) :: byte) AND 0x7f
                          in if i \<noteq> 0 then o1 OR 0x80 else o1) (rev [0..<K])"
    unfolding marshalBase128Int_def cnt using nz by (simp only: if_False base128_emit_list)
  also have "\<dots> = out @ (map (\<lambda>i. of_nat ((m div 128 ^ i) mod 128 + 128)) (rev [1..<K])
                        @ [of_nat (m mod 128)])"
    unfolding rev_upt_split [OF K] by (simp add: Let_def g0 gi)
  finally show ?thesis unfolding spec_base128_index K_def [symmetric] .
qed

lemma push7_or_low:
  "push_bit 7 (x :: 'w::len word) OR ucast ((b :: byte) AND 0x7f) = x * 128 + ucast (b AND 0x7f)"
proof -
  have m: "(0x7f :: byte) = mask 7" by (simp add: mask_eq_exp_minus_1)
  have "push_bit 7 x + ucast (b AND 0x7f) = push_bit 7 x OR ucast (b AND 0x7f)"
    unfolding m by (rule disjunctive_add) (auto simp: bit_simps)
  then show ?thesis by (simp add: push_bit_eq_mult)
qed

lemma ucast_byte_of_nat:
  assumes "g < 256"
  shows "(ucast (of_nat g :: byte) :: 'w::len word) = of_nat g"
proof -
  have "unat (of_nat g :: byte) = g" using assms by (simp add: unat_of_nat)
  then show ?thesis by (metis of_nat_unat)
qed

lemma parse_step_value:
  assumes "g < 128"
  shows "push_bit 7 (of_nat acc :: 'w::len word) OR ucast ((of_nat g :: byte) AND 0x7f) = of_nat (acc * 128 + g)"
    and "push_bit 7 (of_nat acc :: 'w::len word) OR ucast ((of_nat (g + 128) :: byte) AND 0x7f) = of_nat (acc * 128 + g)"
proof -
  have a: "(of_nat g :: byte) AND 0x7f = of_nat g" using assms by (simp add: byte_and_7f)
  have "(g + 128) mod 128 = g" using assms by simp
  then have b: "(of_nat (g + 128) :: byte) AND 0x7f = of_nat g" by (simp only: byte_and_7f)
  have c: "(ucast (of_nat g :: byte) :: 'w word) = of_nat g" using assms by (intro ucast_byte_of_nat) simp
  have "push_bit 7 (of_nat acc :: 'w word) OR ucast ((of_nat g :: byte) AND 0x7f)
        = of_nat acc * 128 + ucast ((of_nat g :: byte) AND 0x7f)"
    by (rule push7_or_low)
  also have "\<dots> = of_nat acc * 128 + of_nat g" by (simp only: a c)
  finally show "push_bit 7 (of_nat acc :: 'w::len word) OR ucast ((of_nat g :: byte) AND 0x7f) = of_nat (acc * 128 + g)"
    by simp
  have "push_bit 7 (of_nat acc :: 'w word) OR ucast ((of_nat (g + 128) :: byte) AND 0x7f)
        = of_nat acc * 128 + ucast ((of_nat (g + 128) :: byte) AND 0x7f)"
    by (rule push7_or_low)
  also have "\<dots> = of_nat acc * 128 + of_nat g" by (simp only: b c)
  finally show "push_bit 7 (of_nat acc :: 'w::len word) OR ucast ((of_nat (g + 128) :: byte) AND 0x7f) = of_nat (acc * 128 + g)"
    by simp
qed

lemma parseBase128Int_loop_groups:
  assumes "gs \<noteq> []" "\<forall>g\<in>set gs. g < 128" "shifted + length gs \<le> 5"
  shows "parseBase128Int_loop
           (pre @ (map (\<lambda>g. of_nat (g + 128)) (butlast gs) @ [of_nat (last gs)]) @ post)
           shifted (of_nat acc :: 'w::len word) (length pre)
         = Inr (of_nat (foldl (\<lambda>a g. a * 128 + g) acc gs), length pre + length gs)"
  using assms
proof (induction gs arbitrary: pre acc shifted rule: list_nonempty_induct)
  case (single g)
  then have g: "g < 128" and sh: "\<not> 4 < shifted" by simp_all
  show ?case
    using sh byte_and_80(1) [OF g] parse_step_value(1) [OF g, of acc, where 'w = 'w]
    by (subst parseBase128Int_loop.simps) (simp add: Let_def nth_append)
next
  case (cons g gs)
  then have g: "g < 128" and sh: "\<not> 4 < shifted" and rest: "\<forall>g\<in>set gs. g < 128"
    and sh': "(shifted + 1) + length gs \<le> 5" by simp_all
  let ?enc = "map (\<lambda>g. of_nat (g + 128)) (butlast gs) @ [of_nat (last gs) :: byte]"
  have bytes: "pre @ (map (\<lambda>g. of_nat (g + 128)) (butlast (g # gs)) @ [of_nat (last (g # gs))]) @ post
               = (pre @ [of_nat (g + 128)]) @ ?enc @ post"
    using cons.hyps by simp
  have IH: "parseBase128Int_loop ((pre @ [of_nat (g + 128)]) @ ?enc @ post) (shifted + 1)
              (of_nat (acc * 128 + g) :: 'w word) (length (pre @ [of_nat (g + 128) :: byte]))
            = Inr (of_nat (foldl (\<lambda>a g. a * 128 + g) (acc * 128 + g) gs),
                   length (pre @ [of_nat (g + 128) :: byte]) + length gs)"
    by (rule cons.IH [OF rest sh'])
  have nth: "((pre @ [of_nat (g + 128)]) @ ?enc @ post) ! length pre = (of_nat (g + 128) :: byte)"
    by (simp add: nth_append)
  have lt: "length pre < length ((pre @ [of_nat (g + 128) :: byte]) @ ?enc @ post)" by simp
  show ?case
    unfolding bytes
    apply (subst parseBase128Int_loop.simps)
    unfolding nth Let_def if_P [OF lt] if_not_P [OF sh] parse_step_value(2) [OF g]
    using byte_and_80(2) [OF g] IH by simp
qed

lemma length_spec_base128: "length (spec_base128 m) = length (spec_groups m)"
  using spec_groups_nonempty [of m] by (simp add: spec_base128_def Let_def)

lemma parseBase128Int_spec_varint:
  assumes "m < 128 ^ 5"
  shows "parseBase128Int (pre @ spec_base128 m @ post) (length pre)
         = Inr (of_nat m :: 'w::len word, length pre + length (spec_base128 m))"
proof -
  have len: "0 + length (spec_groups m) \<le> 5" using spec_groups_length [OF assms] by simp
  have small: "\<forall>g\<in>set (spec_groups m). g < 128" using spec_groups_small by blast
  have "parseBase128Int_loop
           (pre @ (map (\<lambda>g. of_nat (g + 128)) (butlast (spec_groups m)) @ [of_nat (last (spec_groups m))]) @ post)
           0 (of_nat 0 :: 'w word) (length pre)
         = Inr (of_nat (foldl (\<lambda>a g. a * 128 + g) 0 (spec_groups m)), length pre + length (spec_groups m))"
    by (rule parseBase128Int_loop_groups [OF spec_groups_nonempty small len])
  then show ?thesis
    unfolding parseBase128Int_def length_spec_base128 spec_groups_value
    by (simp add: spec_base128_def Let_def)
qed

lemma marshalBase128Int_append: "marshalBase128Int out n = out @ marshalBase128Int [] n"
  unfolding marshalBase128Int_def base128_emit_list [of n _ out] base128_emit_list [of n _ "[]"]
  by simp

lemma marshalBase128Int_negative:
  assumes "sint n < 0"
  shows "marshalBase128Int out n = out"
proof -
  have "n \<noteq> 0" using assms by auto
  moreover have "\<not> 0 <s n" using assms by (simp add: word_sless_alt)
  then have "base128_groups n 0 = 0" by (subst base128_groups.simps) simp
  ultimately show ?thesis by (simp add: marshalBase128Int_def)
qed

lemma marshalObjectIdentifier_loop_concat:
  "marshalObjectIdentifier_loop oid i out
   = out @ concat (map (\<lambda>c. marshalBase128Int [] (scast c)) (drop i oid))"
proof (induction oid i out rule: marshalObjectIdentifier_loop.induct)
  case (1 oid i out)
  show ?case
  proof (cases "i < length oid")
    case True
    have d: "drop i oid = oid ! i # drop (i + 1) oid" using True by (simp add: Cons_nth_drop_Suc)
    show ?thesis
      using True "1.IH" [OF True]
      by (subst marshalObjectIdentifier_loop.simps)
         (simp add: d marshalBase128Int_append [of out])
  next
    case False
    then show ?thesis by (subst marshalObjectIdentifier_loop.simps) simp
  qed
qed

section \<open>Properties of the string functions\<close>

lemma digit_char_props:
  assumes "d < 10"
  shows "is_digit (digit_char d)" "(of_char (digit_char d) :: nat) - 48 = d"
    "digit_char d \<noteq> CHR ''.''" "digit_char d \<noteq> CHR ''-''" "digit_char d \<noteq> CHR ''+''"
proof -
  have oc: "(of_char (digit_char d) :: nat) = 48 + d"
    using assms by (simp add: digit_char_def)
  show "is_digit (digit_char d)" using assms by (simp add: is_digit_def oc)
  show "(of_char (digit_char d) :: nat) - 48 = d" by (simp add: oc)
  have ne: "digit_char d \<noteq> c" if "(of_char c :: nat) < 48" for c
  proof
    assume "digit_char d = c"
    then have "(of_char (digit_char d) :: nat) = of_char c" by simp
    with oc that show False by simp
  qed
  show "digit_char d \<noteq> CHR ''.''" "digit_char d \<noteq> CHR ''-''" "digit_char d \<noteq> CHR ''+''"
    by (rule ne, simp)+
qed

lemma dec_digits_props:
  "dec_digits n \<noteq> []"
  "list_all is_digit (dec_digits n)"
  "CHR ''.'' \<notin> set (dec_digits n)"
  "hd (dec_digits n) \<noteq> CHR ''-''" "hd (dec_digits n) \<noteq> CHR ''+''"
proof -
  show ne: "dec_digits n \<noteq> []" for n by (subst dec_digits.simps) simp
  show "list_all is_digit (dec_digits n)"
  proof (induction n rule: dec_digits.induct)
    case (1 n)
    show ?case
    proof (cases "n < 10")
      case True
      then show ?thesis by (subst dec_digits.simps) (simp add: digit_char_props)
    next
      case False
      with "1.IH" show ?thesis by (subst dec_digits.simps) (simp add: digit_char_props)
    qed
  qed
  then have d: "\<forall>c\<in>set (dec_digits n). is_digit c" by (simp add: list_all_iff)
  have nd: "\<not> is_digit CHR ''.''" "\<not> is_digit CHR ''-''" "\<not> is_digit CHR ''+''"
    by (simp_all add: is_digit_def)
  from d nd(1) show "CHR ''.'' \<notin> set (dec_digits n)" by blast
  have "hd (dec_digits n) \<in> set (dec_digits n)" using ne by simp
  with d have "is_digit (hd (dec_digits n))" by blast
  with nd show "hd (dec_digits n) \<noteq> CHR ''-''" "hd (dec_digits n) \<noteq> CHR ''+''" by auto
qed

lemma dec_value_append: "dec_value (xs @ ys) acc = dec_value ys (dec_value xs acc)"
  by (induction xs arbitrary: acc) simp_all

lemma dec_value_dec_digits: "dec_value (dec_digits n) 0 = n"
proof (induction n rule: dec_digits.induct)
  case (1 n)
  show ?case
  proof (cases "n < 10")
    case True
    then show ?thesis by (subst dec_digits.simps) (simp add: digit_char_props)
  next
    case False
    with "1.IH" show ?thesis
      by (subst dec_digits.simps) (simp add: dec_value_append digit_char_props)
  qed
qed

lemma Atoi_dec_digits:
  assumes "int n < 2 ^ (LENGTH('w::len) - 1)"
  shows "(strconv_Atoi (dec_digits n) :: 'w word option) = Some (of_nat n)"
proof -
  obtain c r where cr: "dec_digits n = c # r" using dec_digits_props(1) [of n] by (cases "dec_digits n") auto
  have "c \<noteq> CHR ''-''" "c \<noteq> CHR ''+''" using dec_digits_props(4,5) [of n] by (simp_all add: cr)
  then have sign: "(case dec_digits n of
                         [] \<Rightarrow> (False, dec_digits n)
                       | c # r \<Rightarrow> if c = CHR ''-'' then (True, r)
                                  else if c = CHR ''+'' then (False, r)
                                  else (False, dec_digits n)) = (False, dec_digits n)"
    by (simp add: cr)
  show ?thesis
    unfolding strconv_Atoi_def sign
    using assms dec_digits_props(1,2) [of n] by (simp add: dec_value_dec_digits)
qed

lemma strings_Split_nonempty: "strings_Split s c \<noteq> []"
  by (induction s) (auto split: list.splits)

lemma strings_Split_prefix:
  assumes "c \<notin> set d"
  shows "strings_Split (d @ rest) c =
           (case strings_Split rest c of [] \<Rightarrow> [d] | p # ps \<Rightarrow> (d @ p) # ps)"
  using assms
proof (induction d)
  case Nil
  show ?case using strings_Split_nonempty [of rest c] by (simp split: list.splits)
next
  case (Cons x d)
  then show ?case using strings_Split_nonempty [of rest c] by (auto split: list.splits)
qed

lemma strings_Split_join:
  assumes "c \<notin> set d" "\<forall>x\<in>set ds. c \<notin> set x"
  shows "strings_Split (d @ concat (map (\<lambda>x. c # x) ds)) c = d # ds"
  using assms
proof (induction ds arbitrary: d)
  case Nil
  then show ?case by (simp add: strings_Split_prefix [of c d "[]", simplified])
next
  case (Cons x xs)
  have "strings_Split (c # x @ concat (map (\<lambda>x. c # x) xs)) c = [] # x # xs"
    using Cons.IH [of x] Cons.prems(2) by simp
  then show ?case using Cons.prems(1)
    by (simp add: strings_Split_prefix [of c d])
qed

lemma strings_Trim_id:
  assumes "s \<noteq> []" "hd s \<noteq> c" "last s \<noteq> c"
  shows "strings_Trim s c = s"
proof -
  have a: "dropWhile (\<lambda>x. x = c) s = s" using assms(1,2) by (cases s) simp_all
  have "rev s \<noteq> []" "hd (rev s) \<noteq> c" using assms(1,3) by (simp_all add: hd_rev)
  then have b: "dropWhile (\<lambda>x. x = c) (rev s) = rev s" by (cases "rev s") simp_all
  show ?thesis unfolding strings_Trim_def a b by simp
qed

lemma last_join:
  assumes "\<forall>x\<in>set (d # ds). x \<noteq> []"
  shows "last (d @ concat (map (\<lambda>x. c # x) ds)) = last (last (d # ds))"
  using assms
proof (induction ds arbitrary: d)
  case Nil
  then show ?case by simp
next
  case (Cons x xs)
  have "last (x @ concat (map (\<lambda>x. c # x) xs)) = last (last (x # xs))"
    using Cons.prems by (intro Cons.IH) simp
  moreover have "x \<noteq> []" using Cons.prems by simp
  ultimately show ?case by simp
qed

lemma oidToString_loop_concat:
  "oidToString_loop oid ret = ret @ concat (map (\<lambda>i. CHR ''.'' # Sprintf_d (sint i)) oid)"
  by (induction oid arbitrary: ret) simp_all

lemma oidToString_Cons:
  "oidToString (c # cs)
   = Return (Sprintf_d (sint c) @ concat (map (\<lambda>i. CHR ''.'' # Sprintf_d (sint i)) cs))"
  by (simp add: oidToString_def oidToString_loop_concat)

lemma marshalOID_parts_digits:
  assumes "\<forall>m\<in>set ms. int m < 2 ^ (LENGTH('w::len) - 1)"
  shows "(marshalOID_parts (map dec_digits ms) :: ('w word) list option) = Some (map of_nat ms)"
  using assms by (induction ms) (simp_all add: Atoi_dec_digits)

text \<open>
  The way back: joining the pieces of \<^verbatim>\<open>strings.Split\<close> with the separator gives the
  string, and a decimal number written without sign or leading zeros is what \<^verbatim>\<open>%d\<close>
  prints for its value.
\<close>

lemma join_split:
  "(case strings_Split s c of [] \<Rightarrow> [] | p # ps \<Rightarrow> p @ concat (map (\<lambda>x. c # x) ps)) = s"
proof (induction s)
  case Nil
  show ?case by simp
next
  case (Cons x xs)
  then show ?case using strings_Split_nonempty [of xs c] by (auto split: list.splits)
qed

lemma digit_char_inverse:
  assumes "is_digit ch"
  shows "digit_char (of_char ch - 48) = ch" "(of_char ch :: nat) - 48 < 10"
proof -
  have r: "48 \<le> (of_char ch :: nat)" "(of_char ch :: nat) \<le> 57"
    using assms by (simp_all add: is_digit_def)
  then have "48 + ((of_char ch :: nat) - 48) = of_char ch" by simp
  then show "digit_char (of_char ch - 48) = ch" by (simp add: digit_char_def)
  from r show "(of_char ch :: nat) - 48 < 10" by simp
qed

lemma dec_value_acc: "dec_value ds acc = acc * 10 ^ length ds + dec_value ds 0"
proof (induction ds arbitrary: acc)
  case Nil
  show ?case by simp
next
  case (Cons c cs)
  show ?case
    using Cons.IH [of "acc * 10 + (of_char c - 48)"] Cons.IH [of "of_char c - 48"]
    by (simp add: algebra_simps)
qed

lemma dec_value_pos:
  assumes "ds \<noteq> []" "list_all is_digit ds" "hd ds \<noteq> CHR ''0''"
  shows "1 \<le> dec_value ds 0"
proof -
  obtain c cs where ds: "ds = c # cs" using assms(1) by (cases ds) auto
  have c: "is_digit c" "c \<noteq> CHR ''0''" using assms by (simp_all add: ds)
  have "(of_char c :: nat) \<noteq> 48"
  proof
    assume "(of_char c :: nat) = 48"
    then have "(of_char c :: nat) = of_char CHR ''0''" by simp
    then have "c = CHR ''0''" by (simp only: of_char_eq_iff)
    with c(2) show False by simp
  qed
  then have a: "1 \<le> (of_char c :: nat) - 48" using c(1) unfolding is_digit_def by linarith
  have "(1::nat) \<le> 10 ^ length cs" by simp
  with a have "1 * 1 \<le> ((of_char c :: nat) - 48) * 10 ^ length cs" by (rule mult_le_mono)
  moreover have "dec_value ds 0 = (of_char c - 48) * 10 ^ length cs + dec_value cs 0"
    using dec_value_acc [of cs "of_char c - 48"] by (simp add: ds)
  ultimately show ?thesis by linarith
qed

lemma dec_digits_dec_value:
  assumes "ds \<noteq> []" "list_all is_digit ds" "hd ds \<noteq> CHR ''0''"
  shows "dec_digits (dec_value ds 0) = ds"
  using assms
proof (induction ds rule: rev_induct)
  case Nil
  then show ?case by simp
next
  case (snoc c xs)
  define d where "d = (of_char c :: nat) - 48"
  have c: "is_digit c" using snoc.prems(2) by simp
  have d: "d < 10" "digit_char d = c" using digit_char_inverse [OF c] by (simp_all add: d_def)
  show ?case
  proof (cases "xs = []")
    case True
    then have "dec_value (xs @ [c]) 0 = d" by (simp add: d_def)
    moreover have "dec_digits d = [digit_char d]" using d(1) by (subst dec_digits.simps) simp
    ultimately show ?thesis using True d(2) by simp
  next
    case False
    then have hd: "hd xs \<noteq> CHR ''0''" using snoc.prems(3) by simp
    have dig: "list_all is_digit xs" using snoc.prems(2) by simp
    define v where "v = dec_value xs 0"
    have IH: "dec_digits v = xs" unfolding v_def by (rule snoc.IH [OF False dig hd])
    have v1: "1 \<le> v" unfolding v_def by (rule dec_value_pos [OF False dig hd])
    have n: "dec_value (xs @ [c]) 0 = v * 10 + d" by (simp add: dec_value_append v_def d_def)
    have ge: "\<not> v * 10 + d < 10" using v1 by simp
    have dv: "(v * 10 + d) div 10 = v" "(v * 10 + d) mod 10 = d" using d(1) by simp_all
    have "dec_digits (v * 10 + d) = dec_digits v @ [digit_char d]"
      by (subst dec_digits.simps) (simp only: if_not_P [OF ge] dv)
    then show ?thesis unfolding n IH d(2) .
  qed
qed

lemma dec_digits_canonical:
  assumes "canonical_number ds"
  shows "dec_digits (dec_value ds 0) = ds"
proof (cases "ds = ''0''")
  case True
  have "dec_digits 0 = [digit_char 0]" by (subst dec_digits.simps) simp
  moreover have "digit_char 0 = CHR ''0''" by code_simp
  ultimately show ?thesis using True by simp
next
  case False
  with assms have "ds \<noteq> []" "list_all is_digit ds" "hd ds \<noteq> CHR ''0''"
    by (simp_all add: canonical_number_def)
  then show ?thesis by (rule dec_digits_dec_value)
qed

section \<open>Properties of the object identifier codec\<close>

lemma sint_scast_int64:
  fixes c :: "'w::len word"
  assumes "LENGTH('w) \<le> 64"
  shows "sint (scast c :: int64) = sint c"
proof -
  have "(2::int) ^ (LENGTH('w) - 1) \<le> 2 ^ 63" using assms by (intro pow_mono_int) simp
  moreover have "- (2 ^ (LENGTH('w) - 1)) \<le> sint c" "sint c < 2 ^ (LENGTH('w) - 1)"
    by (rule sint_ge, rule sint_lt)
  ultimately have "- (2 ^ 63) \<le> sint c" "sint c < 2 ^ 63" by linarith+
  then have "signed_take_bit 63 (sint c) = sint c" by (rule signed_take_bit_int_eq_self)
  then show ?thesis by (simp add: sint_scast_gen)
qed

lemma scast_int64_nonneg:
  fixes c :: "'w::len word"
  assumes "LENGTH('w) \<le> 64" "0 \<le> sint c"
  shows "(scast c :: int64) = of_nat (nat (sint c))" "nat (sint c) < 2 ^ 63"
proof -
  have "(scast c :: int64) = word_of_int (sint c)" by (rule scast_eq)
  also have "sint c = int (nat (sint c))" using assms(2) by simp
  finally show "(scast c :: int64) = of_nat (nat (sint c))" by (simp only: of_int_of_nat_eq)
  have "sint (scast c :: int64) < 2 ^ 63" using sint_lt [of "scast c :: int64"] by simp
  then have "sint c < 2 ^ 63" unfolding sint_scast_int64 [OF assms(1)] .
  then show "nat (sint c) < 2 ^ 63" using assms(2) by simp
qed

lemma ucast_byte_mod:
  fixes x :: "'w::len word"
  assumes "8 \<le> LENGTH('w)"
  shows "uint (ucast x :: byte) = sint x mod 256"
proof -
  have "uint (ucast x :: byte) = take_bit 8 (uint x)"
    by (intro bit_eqI) (auto simp: bit_take_bit_iff bit_uint_iff bit_ucast_iff dest: bit_imp_le_length)
  also have "\<dots> = take_bit 8 (sint x)"
    using assms by (intro bit_eqI) (auto simp: bit_take_bit_iff bit_sint_iff bit_uint_iff)
  finally show ?thesis by (simp add: take_bit_eq_mod)
qed

text \<open>
  What \<^verbatim>\<open>marshalObjectIdentifier\<close> does on every integer sequence, \<^verbatim>\<open>int\<close> having 32 to
  64 bits. It fails exactly when there are fewer than 2 components, or the first
  exceeds 6, or the second is 40 or more. Otherwise it writes one byte, the low 8 bits
  of \<^verbatim>\<open>oid[0]*40 + oid[1]\<close>, and then what \<^verbatim>\<open>marshalBase128Int\<close> emits for each remaining
  component in order: the base-128 varint for a component that is not negative, nothing
  for a negative one.
\<close>

lemma marshalObjectIdentifier_output:
  fixes oid :: "('w::len word) list"
  assumes w: "32 \<le> LENGTH('w)" "LENGTH('w) \<le> 64"
  shows "marshalObjectIdentifier oid =
           (if length oid < 2 \<or> 6 < sint (oid ! 0) \<or> 40 \<le> sint (oid ! 1) then Inl InvalidOid
            else Inr (ucast (oid ! 0 * 40 + oid ! 1)
                      # concat (map (\<lambda>c. marshalBase128Int [] (scast c)) (drop 2 oid))))
       \<and> uint (ucast (oid ! 0 * 40 + oid ! 1) :: byte) = (40 * sint (oid ! 0) + sint (oid ! 1)) mod 256
       \<and> (\<forall>c \<in> set (drop 2 oid). 0 \<le> sint c \<longrightarrow>
             marshalBase128Int [] (scast c) = spec_base128 (nat (sint c)))
       \<and> (\<forall>c \<in> set (drop 2 oid). sint c < 0 \<longrightarrow> marshalBase128Int [] (scast c) = [])"
proof (intro conjI ballI impI)
  have P: "(2147483648::int) \<le> 2 ^ (LENGTH('w) - 1)" by (rule int_pow31_le [OF w(1)])
  have s6: "sint (6 :: 'w word) = 6" using P by (intro sint_numeral_small) linarith
  have s40: "sint (40 :: 'w word) = 40" using P by (intro sint_numeral_small) linarith
  have g: "(6 <s oid ! 0) = (6 < sint (oid ! 0))" "(40 \<le>s oid ! 1) = (40 \<le> sint (oid ! 1))"
    unfolding word_sless_alt word_sle_eq s6 s40 by simp_all
  show "marshalObjectIdentifier oid =
           (if length oid < 2 \<or> 6 < sint (oid ! 0) \<or> 40 \<le> sint (oid ! 1) then Inl InvalidOid
            else Inr (ucast (oid ! 0 * 40 + oid ! 1)
                      # concat (map (\<lambda>c. marshalBase128Int [] (scast c)) (drop 2 oid))))"
    unfolding marshalObjectIdentifier_def g marshalObjectIdentifier_loop_concat Let_def by simp
next
  have w8: "8 \<le> LENGTH('w)" using w(1) by simp
  have "oid ! 0 * 40 + oid ! 1 = word_of_int (sint (oid ! 0) * 40 + sint (oid ! 1))"
    by simp
  then have "sint (oid ! 0 * 40 + oid ! 1) = signed_take_bit (LENGTH('w) - 1) (sint (oid ! 0) * 40 + sint (oid ! 1))"
    (is "_ = signed_take_bit ?n ?k")
    by (simp only: sint_sbintrunc')
  moreover have "signed_take_bit ?n ?k mod 256 = ?k mod 256"
  proof -
    have "take_bit 8 (signed_take_bit ?n ?k) = take_bit 8 ?k"
      using w(1) by (intro bit_eqI) (auto simp: bit_take_bit_iff bit_signed_take_bit_iff min_def)
    then show ?thesis by (simp add: take_bit_eq_mod)
  qed
  ultimately show "uint (ucast (oid ! 0 * 40 + oid ! 1) :: byte) = (40 * sint (oid ! 0) + sint (oid ! 1)) mod 256"
    unfolding ucast_byte_mod [OF w8] by (simp add: mult.commute)
next
  fix c assume "c \<in> set (drop 2 oid)" "0 \<le> sint c"
  then show "marshalBase128Int [] (scast c) = spec_base128 (nat (sint c))"
    using scast_int64_nonneg [OF w(2), of c] marshalBase128Int_is_spec_varint [of "nat (sint c)" "[]"]
    by simp
next
  fix c assume "c \<in> set (drop 2 oid)" "sint c < 0"
  then show "marshalBase128Int [] (scast c) = []"
    using marshalBase128Int_negative [of "scast c" "[]"] sint_scast_int64 [OF w(2), of c] by simp
qed

text \<open>
  Claim C6 asks that, whenever \<^verbatim>\<open>marshalObjectIdentifier\<close> succeeds, the first byte of
  its output be \<^verbatim>\<open>40*seq[0]+seq[1]\<close>. The code does not keep to that: its guard tests
  the two components one by one, so \<open>[6, 16]\<close> passes, \<open>40 * 6 + 16 = 256\<close> does not
  fit the byte, and the byte written is \<^verbatim>\<open>00\<close>, the encoding of \<open>[0, 0]\<close>, which is
  what \<^verbatim>\<open>parseObjectIdentifier\<close> reads back. The same holds up to \<open>[6, 39]\<close>, whose
  byte \<^verbatim>\<open>17\<close> is the one of \<open>[0, 23]\<close>, with a 32-bit and with a 64-bit \<^verbatim>\<open>int\<close>
  alike. \<open>[6, 15]\<close>, first byte \<^verbatim>\<open>ff\<close>, is the last sequence that is encoded as the
  claim says, and \<open>[7, 0]\<close> is refused.
\<close>

theorem marshalObjectIdentifier_first_byte_wraps:
  "marshalObjectIdentifier [6, 16 :: 32 word] = Inr [0x00]
   \<and> 40 * sint (6 :: 32 word) + sint (16 :: 32 word) = 256
   \<and> marshalObjectIdentifier [0, 0 :: 32 word] = Inr [0x00]
   \<and> parseObjectIdentifier [0x00] = Return ([0, 0 :: 32 word], None)
   \<and> marshalObjectIdentifier [6, 39, 5 :: 32 word] = Inr [0x17, 0x05]
   \<and> marshalObjectIdentifier [0, 23, 5 :: 32 word] = Inr [0x17, 0x05]
   \<and> marshalObjectIdentifier [6, 15 :: 32 word] = Inr [0xFF]
   \<and> marshalObjectIdentifier [7, 0 :: 32 word] = Inl InvalidOid
   \<and> marshalObjectIdentifier [6, 16 :: 64 word] = Inr [0x00]
   \<and> marshalObjectIdentifier [0, 0 :: 64 word] = Inr [0x00]"
  by code_simp

lemma spec_base128_nonempty: "spec_base128 m \<noteq> []"
  by (simp add: spec_base128_def Let_def)

lemma parseObjectIdentifier_loop_varints:
  assumes "\<forall>m\<in>set ms. m < 128 ^ 5" "i + length ms \<le> length s"
  shows "parseObjectIdentifier_loop (pre @ concat (map spec_base128 ms)) (length pre) i (s :: ('w::len word) list)
         = Return (take i s @ map of_nat ms, None)"
  using assms
proof (induction ms arbitrary: pre i s)
  case Nil
  then show ?case by (subst parseObjectIdentifier_loop.simps) simp
next
  case (Cons m ms)
  let ?bytes = "pre @ concat (map spec_base128 (m # ms))"
  let ?pre' = "pre @ spec_base128 m"
  have b: "?bytes = pre @ spec_base128 m @ concat (map spec_base128 ms)" by simp
  have b': "?bytes = ?pre' @ concat (map spec_base128 ms)" by simp
  have lt: "length pre < length ?bytes" using spec_base128_nonempty [of m] by simp
  have m: "m < 128 ^ 5" using Cons.prems(1) by simp
  have p: "parseBase128Int ?bytes (length pre) = Inr (of_nat m :: 'w word, length ?pre')"
    unfolding b using parseBase128Int_spec_varint [OF m, of pre "concat (map spec_base128 ms)", where 'w = 'w]
    by simp
  have i: "i < length s" using Cons.prems(2) by simp
  have IH: "parseObjectIdentifier_loop (?pre' @ concat (map spec_base128 ms)) (length ?pre') (i + 1)
              (s[i := of_nat m])
            = Return (take (i + 1) (s[i := of_nat m]) @ map of_nat ms, None)"
    using Cons.prems by (intro Cons.IH) simp_all
  have tk: "take (i + 1) (s[i := of_nat m]) = take i s @ [of_nat m]"
    using i by (simp add: take_Suc_conv_app_nth)
  show ?case
    apply (subst parseObjectIdentifier_loop.simps)
    unfolding if_P [OF lt] p
    using i IH [folded b'] tk by simp
qed

lemma sdiv_smod_nonneg:
  assumes "0 \<le> (k :: int)" "0 < l"
  shows "k sdiv l = k div l" "k smod l = k mod l"
proof -
  have "sgn l = 1" using assms(2) by simp
  moreover have "sgn k * (\<bar>k\<bar> div \<bar>l\<bar>) = k div l" "sgn k * (\<bar>k\<bar> mod \<bar>l\<bar>) = k mod l"
    using assms by (cases "k = 0"; simp)+
  ultimately show "k sdiv l = k div l" "k smod l = k mod l"
    by (simp_all add: signed_divide_int_def signed_modulo_int_def)
qed

lemma word_of_nonneg:
  fixes c :: "'w::len word"
  assumes "0 \<le> sint c"
  shows "of_nat (nat (sint c)) = c"
proof -
  have "(word_of_int (int (nat (sint c))) :: 'w word) = word_of_int (sint c)" using assms by simp
  then show ?thesis by (simp only: of_int_of_nat_eq) simp
qed

lemma first_byte_decomposes:
  fixes a b :: "'w::len word"
  assumes w: "32 \<le> LENGTH('w)"
    and r: "0 \<le> sint a" "0 \<le> sint b" "sint b < 40" "40 * sint a + sint b \<le> 255"
  shows "int_quo (ucast (ucast (a * 40 + b) :: byte)) 40 = a"
    and "int_rem (ucast (ucast (a * 40 + b) :: byte)) 40 = b"
proof -
  define q where "q = nat (sint a) * 40 + nat (sint b)"
  have w8: "8 < LENGTH('w)" using w by simp
  have P: "(2147483648::int) \<le> 2 ^ (LENGTH('w) - 1)" by (rule int_pow31_le [OF w])
  have q: "q < 256" "int q = 40 * sint a + sint b" using r by (simp_all add: q_def)
  have "a * 40 + b = of_nat (nat (sint a)) * 40 + of_nat (nat (sint b))"
    by (simp only: word_of_nonneg [OF r(1)] word_of_nonneg [OF r(2)])
  then have x: "a * 40 + b = (of_nat q :: 'w word)" by (simp add: q_def)
  have "unat (of_nat q :: 'w word) = q" using w8 q(1) by (rule unat_of_nat_small)
  then have B: "(ucast (of_nat q :: 'w word) :: byte) = of_nat q" by (metis of_nat_unat)
  have bk: "(ucast (of_nat q :: byte) :: 'w word) = of_nat q" using q(1) by (rule ucast_byte_of_nat)
  have sq: "sint (of_nat q :: 'w word) = int q" using q(1) P by (intro sint_of_nat_small) linarith
  have s40: "sint (40 :: 'w word) = 40" using P by (intro sint_numeral_small) linarith
  have dv: "int q div 40 = sint a" "int q mod 40 = sint b" using r unfolding q(2) by simp_all
  have qn: "0 \<le> int q" by simp
  show "int_quo (ucast (ucast (a * 40 + b) :: byte)) 40 = a"
    unfolding x B bk int_quo_def sq s40 sdiv_smod_nonneg(1) [OF qn, of 40, simplified] dv by simp
  show "int_rem (ucast (ucast (a * 40 + b) :: byte)) 40 = b"
    unfolding x B bk int_rem_def sq s40 sdiv_smod_nonneg(2) [OF qn, of 40, simplified] dv by simp
qed

lemma length_concat_ge:
  assumes "\<forall>x\<in>set xs. f x \<noteq> []"
  shows "length xs \<le> length (concat (map f xs))"
  using assms
proof (induction xs)
  case Nil
  show ?case by simp
next
  case (Cons x xs)
  then have "1 \<le> length (f x)" by (cases "f x") simp_all
  with Cons show ?case by simp
qed

lemma canonical_string:
  fixes a :: "'w::len word" and cs :: "'w word list"
  assumes "\<forall>c\<in>set (a # cs). 0 \<le> sint c"
  shows "oidToString (a # cs)
         = Return (dec_digits (nat (sint a))
                   @ concat (map (\<lambda>x. CHR ''.'' # x) (map (\<lambda>c. dec_digits (nat (sint c))) cs)))"
proof -
  have "map (\<lambda>i. CHR ''.'' # Sprintf_d (sint i)) cs
        = map (\<lambda>x. CHR ''.'' # x) (map (\<lambda>c. dec_digits (nat (sint c))) cs)"
    using assms by (auto simp: Sprintf_d_def)
  moreover have "Sprintf_d (sint a) = dec_digits (nat (sint a))" using assms by (simp add: Sprintf_d_def)
  ultimately show ?thesis by (simp only: oidToString_Cons)
qed

lemma marshalOID_canonical:
  fixes a :: "'w::len word" and cs :: "'w word list"
  assumes nn: "\<forall>c\<in>set (a # cs). 0 \<le> sint c"
  shows "marshalOID TYPE('w)
           (dec_digits (nat (sint a))
            @ concat (map (\<lambda>x. CHR ''.'' # x) (map (\<lambda>c. dec_digits (nat (sint c))) cs)))
         = (case marshalObjectIdentifier (a # cs) of
              Inl err \<Rightarrow> Inl (UnableToMarshalOid err)
            | Inr mOid \<Rightarrow> Inr mOid)"
proof -
  let ?d = "dec_digits (nat (sint a))"
  let ?ds = "map (\<lambda>c. dec_digits (nat (sint c))) cs"
  let ?s = "?d @ concat (map (\<lambda>x. CHR ''.'' # x) ?ds)"
  have ne: "\<forall>x\<in>set (?d # ?ds). x \<noteq> []" using dec_digits_props(1) by auto
  have nodot: "CHR ''.'' \<notin> set ?d" "\<forall>x\<in>set ?ds. CHR ''.'' \<notin> set x"
    using dec_digits_props(3) by auto
  have s_ne: "?s \<noteq> []" using dec_digits_props(1) by simp
  have "hd ?s = hd ?d" using dec_digits_props(1) by simp
  moreover have "hd ?d \<in> set ?d" using dec_digits_props(1) by simp
  ultimately have hd: "hd ?s \<noteq> CHR ''.''" using nodot(1) by metis
  have "last ?s = last (last (?d # ?ds))" by (rule last_join [OF ne])
  moreover have "last (?d # ?ds) \<in> set (?d # ?ds)" by (rule last_in_set) simp
  then obtain c where "last (?d # ?ds) = dec_digits c" by auto
  moreover have "last (dec_digits c) \<in> set (dec_digits c)" using dec_digits_props(1) by simp
  ultimately have lst: "last ?s \<noteq> CHR ''.''" using dec_digits_props(3) [of c] by metis
  have trim: "strings_Trim ?s CHR ''.'' = ?s" by (rule strings_Trim_id [OF s_ne hd lst])
  have split: "strings_Split ?s CHR ''.'' = ?d # ?ds" by (rule strings_Split_join [OF nodot])
  have dm: "?d # ?ds = map dec_digits (map (\<lambda>c. nat (sint c)) (a # cs))" by simp
  have "\<forall>m\<in>set (map (\<lambda>c. nat (sint c)) (a # cs)). int m < 2 ^ (LENGTH('w) - 1)"
    using nn sint_lt [where 'a = 'w] by auto
  then have "(marshalOID_parts (map dec_digits (map (\<lambda>c. nat (sint c)) (a # cs))) :: ('w word) list option)
        = Some (map of_nat (map (\<lambda>c. nat (sint c)) (a # cs)))"
    by (rule marshalOID_parts_digits)
  moreover have "map of_nat (map (\<lambda>c. nat (sint c)) (a # cs)) = a # cs"
    using nn by (simp add: word_of_nonneg o_def map_idI)
  ultimately have parts: "(marshalOID_parts (?d # ?ds) :: ('w word) list option) = Some (a # cs)"
    unfolding dm by simp
  show ?thesis unfolding marshalOID_def Let_def trim split parts by simp
qed

lemma marshalObjectIdentifier_valid:
  fixes a b :: "'w::len word" and cs :: "'w word list"
  assumes w: "32 \<le> LENGTH('w)" "LENGTH('w) \<le> 64"
    and nn: "\<forall>c\<in>set cs. 0 \<le> sint c"
    and root: "sint a \<le> 6" "sint b < 40"
  shows "marshalObjectIdentifier (a # b # cs)
         = Inr (ucast (a * 40 + b) # concat (map spec_base128 (map (\<lambda>c. nat (sint c)) cs)))"
proof -
  have P: "(2147483648::int) \<le> 2 ^ (LENGTH('w) - 1)" by (rule int_pow31_le [OF w(1)])
  have s6: "sint (6 :: 'w word) = 6" using P by (intro sint_numeral_small) linarith
  have s40: "sint (40 :: 'w word) = 40" using P by (intro sint_numeral_small) linarith
  have g: "\<not> (length (a # b # cs) < 2 \<or> 6 <s (a # b # cs) ! 0 \<or> 40 \<le>s (a # b # cs) ! 1)"
    using root unfolding word_sless_alt word_sle_eq s6 s40 by simp
  have enc: "marshalBase128Int [] (scast c) = spec_base128 (nat (sint c))" if "c \<in> set cs" for c
    using that nn scast_int64_nonneg [OF w(2), of c]
      marshalBase128Int_is_spec_varint [of "nat (sint c)" "[]"] by simp
  have "concat (map (\<lambda>c. marshalBase128Int [] (scast c)) cs)
        = concat (map spec_base128 (map (\<lambda>c. nat (sint c)) cs))"
    using enc by (simp add: o_def cong: map_cong)
  then show ?thesis
    unfolding marshalObjectIdentifier_def if_not_P [OF g] Let_def marshalObjectIdentifier_loop_concat
    by simp
qed

lemma parseObjectIdentifier_valid:
  fixes a b :: "'w::len word"
  assumes w: "32 \<le> LENGTH('w)"
    and r: "0 \<le> sint a" "0 \<le> sint b" "sint b < 40" "40 * sint a + sint b \<le> 255"
    and ms: "\<forall>m\<in>set ms. m < 128 ^ 5"
  shows "parseObjectIdentifier (ucast (a * 40 + b) # concat (map spec_base128 ms))
         = Return (a # b # map of_nat ms, None)"
proof -
  let ?B = "ucast (a * 40 + b) :: byte"
  let ?bytes = "?B # concat (map spec_base128 ms)"
  let ?s = "(replicate (length ?bytes + 1) (0 :: 'w word))
              [0 := int_quo (ucast (?bytes ! 0)) 40, 1 := int_rem (ucast (?bytes ! 0)) 40]"
  have fb: "int_quo (ucast (?bytes ! 0)) 40 = a" "int_rem (ucast (?bytes ! 0)) 40 = b"
    using first_byte_decomposes [OF w r] by simp_all
  have "length ms \<le> length (concat (map spec_base128 ms))"
    by (rule length_concat_ge) (simp add: spec_base128_nonempty)
  then have room: "2 + length ms \<le> length ?s" by simp
  have tk: "take 2 ?s = [a, b]"
    unfolding fb by (simp add: numeral_2_eq_2 take_Suc_conv_app_nth)
  have "parseObjectIdentifier_loop ([?B] @ concat (map spec_base128 ms)) (length [?B]) 2 ?s
        = Return (take 2 ?s @ map of_nat ms, None)"
    by (rule parseObjectIdentifier_loop_varints [OF ms room])
  then have loop: "parseObjectIdentifier_loop ?bytes 1 2 ?s = Return (a # b # map of_nat ms, None)"
    unfolding tk by simp
  have ne: "length ?bytes \<noteq> 0" by simp
  show ?thesis
    unfolding parseObjectIdentifier_def Let_def if_not_P [OF ne] by (rule loop)
qed

text \<open>
  The round trip from the integer sequence. Take an object identifier of at least two
  components, none negative and none reaching \<open>2^35\<close>, with a second component below
  40 and a first byte \<open>40 * seq[0] + seq[1]\<close> of at most 255, and let \<open>s\<close> be the
  string that \<^verbatim>\<open>oidToString\<close> writes for it. Then \<^verbatim>\<open>marshalOID\<close> accepts \<open>s\<close>,
  \<^verbatim>\<open>parseObjectIdentifier\<close> parses the bytes back to the same sequence without error,
  and \<^verbatim>\<open>oidToString\<close> renders it as \<open>s\<close> again. \<^verbatim>\<open>int\<close> has 32 to 64 bits.
\<close>

lemma oid_round_trip_seq:
  fixes seq :: "('w::len word) list"
  assumes w: "32 \<le> LENGTH('w)" "LENGTH('w) \<le> 64"
    and len: "2 \<le> length seq"
    and comps: "\<forall>c\<in>set seq. 0 \<le> sint c \<and> sint c < 2 ^ 35"
    and root: "sint (seq ! 1) < 40" "40 * sint (seq ! 0) + sint (seq ! 1) \<le> 255"
  shows "\<exists>s bytes parsed. oidToString seq = Return s
          \<and> marshalOID TYPE('w) s = Inr bytes
          \<and> parseObjectIdentifier bytes = Return (parsed, None)
          \<and> parsed = seq
          \<and> oidToString parsed = Return s"
proof -
  obtain a b cs where seq: "seq = a # b # cs"
    using len by (cases seq; cases "tl seq") auto
  have nn: "\<forall>c\<in>set (a # b # cs). 0 \<le> sint c" using comps by (simp add: seq)
  have r: "0 \<le> sint a" "0 \<le> sint b" "sint b < 40" "40 * sint a + sint b \<le> 255"
    using comps root by (simp_all add: seq)
  then have a6: "sint a \<le> 6" by linarith
  define s where "s = dec_digits (nat (sint a))
                   @ concat (map (\<lambda>x. CHR ''.'' # x) (map (\<lambda>c. dec_digits (nat (sint c))) (b # cs)))"
  define bytes where "bytes = (ucast (a * 40 + b) :: byte) # concat (map spec_base128 (map (\<lambda>c. nat (sint c)) cs))"
  have A: "oidToString seq = Return s"
    unfolding seq s_def by (rule canonical_string [OF nn])
  have mo: "marshalObjectIdentifier (a # b # cs) = Inr bytes"
    unfolding bytes_def using nn by (intro marshalObjectIdentifier_valid [OF w _ a6 r(3)]) simp
  have B: "marshalOID TYPE('w) s = Inr bytes"
    unfolding s_def marshalOID_canonical [OF nn] mo by simp
  have small: "\<forall>m\<in>set (map (\<lambda>c. nat (sint c)) cs). m < 128 ^ 5"
  proof
    fix m assume "m \<in> set (map (\<lambda>c. nat (sint c)) cs)"
    then obtain c where c: "c \<in> set cs" "m = nat (sint c)" by auto
    then have "0 \<le> sint c" "sint c < 2 ^ 35" using comps by (simp_all add: seq)
    then have "m < 2 ^ 35" unfolding c(2) by simp
    then show "m < 128 ^ 5" by simp
  qed
  have "map of_nat (map (\<lambda>c. nat (sint c)) cs) = cs"
    using nn by (simp add: word_of_nonneg o_def map_idI)
  then have C: "parseObjectIdentifier bytes = Return (seq, None)"
    unfolding bytes_def seq using parseObjectIdentifier_valid [OF w(1) r small] by simp
  from A B C show ?thesis by blast
qed

text \<open>
  Claim C5, with the conditions it needs. Let \<open>s\<close> be a dotted-decimal string in
  canonical form: no leading or trailing dot, every component a non-empty run of
  decimal digits without sign or leading zero. Let it have at least two components,
  every component fitting an \<^verbatim>\<open>int\<close> (below \<open>2^31\<close> where \<^verbatim>\<open>int\<close> has 32 bits) and below
  \<open>2^35\<close>, the second component below 40 and \<open>40 * first + second\<close> at most 255.
  Then \<^verbatim>\<open>marshalOID\<close> accepts \<open>s\<close>, \<^verbatim>\<open>parseObjectIdentifier\<close> parses the bytes without
  error to the components of \<open>s\<close>, and \<^verbatim>\<open>oidToString\<close> renders them as \<open>s\<close> again.
  \<^verbatim>\<open>int\<close> has 32 to 64 bits.
\<close>

theorem oid_round_trip:
  fixes s :: string
  assumes w: "32 \<le> LENGTH('w::len)" "LENGTH('w) \<le> 64"
    and canon: "canonical_oid s"
    and len: "2 \<le> length (oid_numbers s)"
    and comps: "\<forall>m\<in>set (oid_numbers s). m < 2 ^ 35 \<and> int m < 2 ^ (LENGTH('w) - 1)"
    and root: "oid_numbers s ! 1 < 40" "40 * (oid_numbers s ! 0) + oid_numbers s ! 1 \<le> 255"
  shows "\<exists>bytes (parsed :: 'w word list).
            marshalOID TYPE('w) s = Inr bytes
          \<and> parseObjectIdentifier bytes = Return (parsed, None)
          \<and> map sint parsed = map int (oid_numbers s)
          \<and> oidToString parsed = Return s"
proof -
  define parts where "parts = strings_Split s CHR ''.''"
  define nums where "nums = oid_numbers s"
  define seq :: "'w word list" where "seq = map of_nat nums"
  have nums: "nums = map (\<lambda>p. dec_value p 0) parts"
    by (simp add: nums_def oid_numbers_def parts_def)
  have cp: "\<forall>p\<in>set parts. canonical_number p"
    using canon by (simp add: canonical_oid_def parts_def list_all_iff)
  have dd: "map dec_digits nums = parts"
    unfolding nums using cp by (simp add: dec_digits_canonical map_idI)
  have si: "sint (of_nat m :: 'w word) = int m" if "m \<in> set nums" for m
    using that comps by (intro sint_of_nat_small) (simp add: nums_def)
  have sseq: "map sint seq = map int nums"
    unfolding seq_def using si by simp
  have l2: "2 \<le> length nums" using len by (simp add: nums_def)
  have len': "2 \<le> length seq" using l2 by (simp add: seq_def)
  have n0: "nums ! 0 \<in> set nums" "nums ! 1 \<in> set nums"
    using l2 by (auto intro!: nth_mem)
  have l01: "0 < length nums" "1 < length nums" using l2 by linarith+
  have "seq ! 0 = of_nat (nums ! 0)" "seq ! 1 = of_nat (nums ! 1)"
    unfolding seq_def by (rule nth_map [OF l01(1)], rule nth_map [OF l01(2)])
  then have s0: "sint (seq ! 0) = int (nums ! 0)" "sint (seq ! 1) = int (nums ! 1)"
    using si [OF n0(1)] si [OF n0(2)] by simp_all
  have comps': "\<forall>c\<in>set seq. 0 \<le> sint c \<and> sint c < 2 ^ 35"
  proof
    fix c assume "c \<in> set seq"
    then obtain m where m: "m \<in> set nums" "c = of_nat m" by (auto simp: seq_def)
    have "m < 2 ^ 35" using m(1) comps by (simp add: nums_def)
    then have "int m < 2 ^ 35" by (metis of_nat_less_iff of_nat_numeral of_nat_power)
    then show "0 \<le> sint c \<and> sint c < 2 ^ 35" unfolding m(2) si [OF m(1)] by simp
  qed
  have r1: "sint (seq ! 1) < 40" unfolding s0 using root(1) by (simp add: nums_def)
  have "int (40 * (nums ! 0) + nums ! 1) \<le> int 255" using root(2) unfolding nums_def by (rule iffD2 [OF of_nat_le_iff])
  then have r2: "40 * sint (seq ! 0) + sint (seq ! 1) \<le> 255" unfolding s0 by simp
  from oid_round_trip_seq [OF w len' comps' r1 r2]
  obtain s' bytes parsed where
    r: "oidToString seq = Return s'" "marshalOID TYPE('w) s' = Inr bytes"
      "parseObjectIdentifier bytes = Return (parsed, None)" "parsed = seq"
    by blast
  obtain a cs where ac: "seq = a # cs" using len' by (cases seq) auto
  have nn: "\<forall>c\<in>set (a # cs). 0 \<le> sint c" using comps' by (simp add: ac)
  have "map (\<lambda>c. dec_digits (nat (sint c))) seq = map dec_digits nums"
    unfolding seq_def using si by simp
  then have ps: "parts = dec_digits (nat (sint a)) # map (\<lambda>c. dec_digits (nat (sint c))) cs"
    unfolding dd ac by simp
  have "s = dec_digits (nat (sint a))
            @ concat (map (\<lambda>x. CHR ''.'' # x) (map (\<lambda>c. dec_digits (nat (sint c))) cs))"
    using join_split [where s = s and c = "CHR ''.''"] unfolding parts_def [symmetric] ps by simp
  then have "oidToString seq = Return s"
    unfolding ac using canonical_string [OF nn] by simp
  with r(1) have e: "s' = s" by simp
  from r(2,3) r(1) sseq show ?thesis unfolding e r(4) nums_def by blast
qed

text \<open>The theorem on \<^verbatim>\<open>1.3.6.1.4.1.2680.1.2.7.3.2.0\<close> with a 32-bit \<^verbatim>\<open>int\<close>.\<close>

theorem oid_round_trip_witness:
  "canonical_oid ''1.3.6.1.4.1.2680.1.2.7.3.2.0''
   \<and> oid_numbers ''1.3.6.1.4.1.2680.1.2.7.3.2.0'' = [1, 3, 6, 1, 4, 1, 2680, 1, 2, 7, 3, 2, 0]
   \<and> marshalOID TYPE(32) ''1.3.6.1.4.1.2680.1.2.7.3.2.0''
       = Inr [0x2B, 0x06, 0x01, 0x04, 0x01, 0x94, 0x78, 0x01, 0x02, 0x07, 0x03, 0x02, 0x00]
   \<and> parseObjectIdentifier [0x2B, 0x06, 0x01, 0x04, 0x01, 0x94, 0x78, 0x01, 0x02, 0x07, 0x03, 0x02, 0x00]
       = Return ([1, 3, 6, 1, 4, 1, 2680, 1, 2, 7, 3, 2, 0 :: 32 word], None)
   \<and> oidToString [1, 3, 6, 1, 4, 1, 2680, 1, 2, 7, 3, 2, 0 :: 32 word]
       = Return ''1.3.6.1.4.1.2680.1.2.7.3.2.0''"
proof -
  let ?s = "''1.3.6.1.4.1.2680.1.2.7.3.2.0''"
  have c: "canonical_oid ?s" by (simp add: canonical_oid_def canonical_number_def is_digit_def)
  have n: "oid_numbers ?s = [1, 3, 6, 1, 4, 1, 2680, 1, 2, 7, 3, 2, 0]"
    by (simp add: oid_numbers_def)
  have h: "32 \<le> LENGTH(32)" "LENGTH(32) \<le> 64" "2 \<le> length (oid_numbers ?s)"
    "\<forall>m\<in>set (oid_numbers ?s). m < 2 ^ 35 \<and> int m < 2 ^ (LENGTH(32) - 1)"
    "oid_numbers ?s ! 1 < 40" "40 * (oid_numbers ?s ! 0) + oid_numbers ?s ! 1 \<le> 255"
    unfolding n by simp_all
  have e2: "marshalOID TYPE(32) ?s
       = Inr [0x2B, 0x06, 0x01, 0x04, 0x01, 0x94, 0x78, 0x01, 0x02, 0x07, 0x03, 0x02, 0x00]"
    by code_simp
  have e3: "parseObjectIdentifier [0x2B, 0x06, 0x01, 0x04, 0x01, 0x94, 0x78, 0x01, 0x02, 0x07, 0x03, 0x02, 0x00]
       = Return ([1, 3, 6, 1, 4, 1, 2680, 1, 2, 7, 3, 2, 0 :: 32 word], None)"
    by code_simp
  from oid_round_trip [OF h(1,2) c h(3-6)] c n e2 e3 show ?thesis by auto
qed

text \<open>
  Claim C5 as stated, for every valid string without leading or trailing dot, fails in
  four ways.
  \<^verbatim>\<open>6.16\<close> passes the guard of \<^verbatim>\<open>marshalObjectIdentifier\<close>, its first byte
  \<open>40 * 6 + 16 = 256\<close> wraps to \<^verbatim>\<open>00\<close>, and the way back gives \<^verbatim>\<open>0.0\<close>. With a 64-bit
  \<^verbatim>\<open>int\<close>, the component \<open>2^35\<close> is written as six varint bytes, which
  \<^verbatim>\<open>parseBase128Int\<close> refuses as too large after five. With a 32-bit \<^verbatim>\<open>int\<close>, the
  component \<open>2^31\<close> does not fit an \<^verbatim>\<open>int\<close>, \<^verbatim>\<open>strconv.Atoi\<close> fails and \<^verbatim>\<open>marshalOID\<close>
  returns an error. And \<^verbatim>\<open>1.03\<close>, which has no leading or trailing dot but a component
  written with a leading zero, is accepted and comes back as \<^verbatim>\<open>1.3\<close>.
\<close>

theorem oid_round_trip_counterexample:
  "canonical_oid ''6.16''
   \<and> marshalOID TYPE(32) ''6.16'' = Inr [0x00]
   \<and> parseObjectIdentifier [0x00] = Return ([0, 0 :: 32 word], None)
   \<and> oidToString [0, 0 :: 32 word] = Return ''0.0''
   \<and> ''0.0'' \<noteq> ''6.16''
   \<and> canonical_oid ''1.3.34359738368''
   \<and> marshalOID TYPE(64) ''1.3.34359738368'' = Inr [0x2B, 0x81, 0x80, 0x80, 0x80, 0x80, 0x00]
   \<and> parseObjectIdentifier [0x2B, 0x81, 0x80, 0x80, 0x80, 0x80, 0x00]
       = Return ([1, 3, 0, 0, 0, 0, 0, 0 :: 64 word], Some Base128TooLarge)
   \<and> canonical_oid ''1.3.2147483648''
   \<and> marshalOID TYPE(32) ''1.3.2147483648'' = Inl MalformedOid
   \<and> marshalOID TYPE(32) ''1.03'' = Inr [0x2B]
   \<and> parseObjectIdentifier [0x2B] = Return ([1, 3 :: 32 word], None)
   \<and> oidToString [1, 3 :: 32 word] = Return ''1.3''
   \<and> ''1.3'' \<noteq> ''1.03''"
proof -
  have a: "marshalOID TYPE(32) ''6.16'' = Inr [0x00]
     \<and> parseObjectIdentifier [0x00] = Return ([0, 0 :: 32 word], None)
     \<and> oidToString [0, 0 :: 32 word] = Return ''0.0''
     \<and> ''0.0'' \<noteq> ''6.16''"
    by code_simp
  have k: "canonical_oid ''6.16''" "canonical_oid ''1.3.34359738368''"
    "canonical_oid ''1.3.2147483648''"
    by (simp_all add: canonical_oid_def canonical_number_def is_digit_def)
  have split: "strings_Split (strings_Trim ''1.3.34359738368'' CHR ''.'') CHR ''.''
               = [''1'', ''3'', ''34359738368'']"
    by (simp add: strings_Trim_def)
  have parts: "(marshalOID_parts [''1'', ''3'', ''34359738368''] :: (64 word) list option)
               = Some [1, 3, 34359738368]"
    by (simp add: strconv_Atoi_def is_digit_def)
  have mo: "marshalObjectIdentifier [1, 3, 34359738368 :: 64 word]
            = Inr [0x2B, 0x81, 0x80, 0x80, 0x80, 0x80, 0x00]"
    by code_simp
  have b: "marshalOID TYPE(64) ''1.3.34359738368'' = Inr [0x2B, 0x81, 0x80, 0x80, 0x80, 0x80, 0x00]"
    unfolding marshalOID_def Let_def split parts by (simp add: mo)
  have c: "parseObjectIdentifier [0x2B, 0x81, 0x80, 0x80, 0x80, 0x80, 0x00]
       = Return ([1, 3, 0, 0, 0, 0, 0, 0 :: 64 word], Some Base128TooLarge)"
    by code_simp
  have split32: "strings_Split (strings_Trim ''1.3.2147483648'' CHR ''.'') CHR ''.''
               = [''1'', ''3'', ''2147483648'']"
    by (simp add: strings_Trim_def)
  have parts32: "(marshalOID_parts [''1'', ''3'', ''2147483648''] :: (32 word) list option) = None"
    by (simp add: strconv_Atoi_def is_digit_def)
  have d: "marshalOID TYPE(32) ''1.3.2147483648'' = Inl MalformedOid"
    unfolding marshalOID_def Let_def split32 parts32 by simp
  have e: "marshalOID TYPE(32) ''1.03'' = Inr [0x2B]
     \<and> parseObjectIdentifier [0x2B] = Return ([1, 3 :: 32 word], None)
     \<and> oidToString [1, 3 :: 32 word] = Return ''1.3''
     \<and> ''1.3'' \<noteq> ''1.03''"
    by code_simp
  from a k b c d e show ?thesis by simp
qed

end
